theory Spec2Isabelle
  imports Main "HOL-Library.Extended_Nat" "HOL-Library.Product_Lexorder"
begin

section \<open>ArborX minimum spanning tree: the driver of \<open>ArborX_MinimumSpanningTree.hpp\<close>\<close>

text \<open>
  The header holds the struct \<open>MinimumSpanningTree\<close> (a template over the memory
  space and the mode), its constructor
  and the member function \<open>doBoruvka\<close>. Everything in namespace \<open>Details\<close> (the kernels of
  \<open>ArborX_BoruvkaHelpers.hpp\<close>), the bounding volume hierarchy and the Kokkos runtime
  are other headers: the driver only calls them. They are taken as a record of
  functions, \<open>Details\<close>, so that the driver is modelled for every implementation of
  them. Float values are only stored, copied and handed on by the driver: their type is
  the parameter \<open>'w\<close>. Points have type \<open>'p\<close>, the hierarchy type \<open>'b\<close>.

  A Kokkos view of rank one is a list. Extents and indices are far below the range of the
  machine types (an index of \<open>edges\<close> is an \<open>int\<close>), so they are \<open>nat\<close> and \<open>int\<close>. With no
  point at all the extent \<open>size - 1\<close> of \<open>edges\<close> wraps around and no such view can be
  allocated: the constructor does not return then.
\<close>

subsection \<open>Data\<close>

datatype BoruvkaMode = MST | HDBSCAN

text \<open>The execution space decides the two \<open>constexpr\<close> switches: \<open>Kokkos::Serial\<close> or any other.\<close>

datatype ExecutionSpace = Serial | OtherSpace

record 'w WeightedEdge =
  source :: int
  target :: int
  weight :: 'w

text \<open>
  Modelled from the spec: \<open>DirectedEdge\<close> is declared in \<open>ArborX_BoruvkaHelpers.hpp\<close>;
  the spec gives it a source, a target and a weight.
\<close>

record 'w DirectedEdge =
  de_source :: int
  de_target :: int
  de_weight :: 'w

text \<open>The metric handed to the kernels: \<open>Details::Euclidean{}\<close> or
  \<open>Details::MutualReachability\<close> holding the view of core distances.\<close>

datatype 'w Metric = Euclidean | MutualReachability "'w list"

text \<open>The members of the struct.\<close>

record 'w MinimumSpanningTree =
  edges :: "'w WeightedEdge list"
  dendrogram_parents :: "int list"
  dendrogram_parent_heights :: "'w list"
  chain_offsets :: "int list"
  chain_levels :: "int list"

text \<open>
  The functor \<open>Details::UpdateComponentsAndEdges\<close> \<open>f\<close> holds five views; the three
  tagged kernels run over it and may write through any of them.
\<close>

record 'w UpdateComponentsAndEdges =
  f_labels :: "int list"
  f_out_edges :: "'w DirectedEdge list"
  f_edges :: "'w WeightedEdge list"
  f_edges_mapping :: "int list"
  f_num_edges :: int

text \<open>
  The work handed to the execution space, in the order of submission. An entry records
  the arguments a claim speaks about: the number of neighbours of the core distance
  query, the metric of the nearest neighbour search, the range of edges of
  \<open>updateSidedParents\<close>, the offsets and the sided parents of the final pass.
\<close>

datatype 'w kernel =
    BVH_construction
  | compute_core_distances int
  | find_parents
  | reduce_labels
  | reset_shared_radii
  | find_component_nearest_neighbors "'w Metric"
  | retrieve_edges
  | update_lower_bounds
  | update_unidirectional_edges
  | update_bidirectional_edges
  | update_sided_parents int int
  | compute_vertex_parents
  | update_labels
  | compute_parents_and_reorder_edges "int list" "int list"
  | assign_dendrogram_parent_heights
  | finalize_edges

text \<open>
  The callees. Each function takes the views the call site passes, in the order of the
  call, and returns the views it writes. Contents of a view allocated
  \<open>WithoutInitializing\<close> are whatever \<open>uninit_*\<close> gives at each index.
\<close>

record ('p, 'b, 'w) Details =
  bvh_construct :: "'p list \<Rightarrow> 'b"
  bvh_size :: "'b \<Rightarrow> nat"
  bvh_query_nearest :: "'b \<Rightarrow> 'p list \<Rightarrow> int \<Rightarrow> 'w list \<Rightarrow> 'w list"
  findParents :: "'b \<Rightarrow> int list \<Rightarrow> int list"
  reduceLabels :: "int list \<Rightarrow> int list \<Rightarrow> int list"
  resetSharedRadii :: "'b \<Rightarrow> int list \<Rightarrow> 'w Metric \<Rightarrow> 'w list \<Rightarrow> 'w list"
  FindComponentNearestNeighbors ::
    "'b \<Rightarrow> int list \<Rightarrow> 'w list \<Rightarrow> 'w DirectedEdge list \<Rightarrow> 'w Metric \<Rightarrow> 'w list \<Rightarrow> 'w list
      \<Rightarrow> bool \<Rightarrow> 'w list \<times> 'w DirectedEdge list \<times> 'w list \<times> 'w list"
  retrieveEdges :: "int list \<Rightarrow> 'w list \<Rightarrow> 'w DirectedEdge list \<Rightarrow> 'w DirectedEdge list"
  updateLowerBounds :: "int list \<Rightarrow> 'w DirectedEdge list \<Rightarrow> 'w list \<Rightarrow> 'w list"
  UnidirectionalEdgesTag ::
    "BoruvkaMode \<Rightarrow> nat \<Rightarrow> 'w UpdateComponentsAndEdges \<Rightarrow> 'w UpdateComponentsAndEdges"
  BidirectionalEdgesTag ::
    "BoruvkaMode \<Rightarrow> nat \<Rightarrow> 'w UpdateComponentsAndEdges \<Rightarrow> 'w UpdateComponentsAndEdges"
  LabelsTag ::
    "BoruvkaMode \<Rightarrow> nat \<Rightarrow> 'w UpdateComponentsAndEdges \<Rightarrow> 'w UpdateComponentsAndEdges"
  updateSidedParents ::
    "int list \<Rightarrow> 'w WeightedEdge list \<Rightarrow> int list \<Rightarrow> int list \<Rightarrow> int \<Rightarrow> int \<Rightarrow> int list"
  assignVertexParents ::
    "int list \<Rightarrow> 'w DirectedEdge list \<Rightarrow> int list \<Rightarrow> 'b \<Rightarrow> int list \<Rightarrow> int list"
  computeParentsAndReorderEdges ::
    "'w WeightedEdge list \<Rightarrow> int list \<Rightarrow> int list \<Rightarrow> int list \<Rightarrow> int list \<Rightarrow> int list
      \<Rightarrow> 'w WeightedEdge list \<times> int list \<times> int list \<times> int list"
  finalizeEdges :: "'b \<Rightarrow> 'w WeightedEdge list \<Rightarrow> 'w WeightedEdge list"
  ROOT_CHAIN_VALUE :: int
  infinity :: 'w
  uninitialized_edge :: "'w DirectedEdge"
  uninit_int :: "nat \<Rightarrow> int"
  uninit_float :: "nat \<Rightarrow> 'w"
  uninit_edge :: "nat \<Rightarrow> 'w WeightedEdge"
  uninit_out_edge :: "nat \<Rightarrow> 'w DirectedEdge"

subsection \<open>Kokkos views\<close>

text \<open>A view of \<open>m\<close> elements allocated \<open>WithoutInitializing\<close>.\<close>

definition without_initializing :: "(nat \<Rightarrow> 'a) \<Rightarrow> nat \<Rightarrow> 'a list" where
  "without_initializing junk m = map junk [0..<m]"

text \<open>\<open>Kokkos::deep_copy(space, view, value)\<close>: every element becomes the value.\<close>

definition deep_copy :: "'a list \<Rightarrow> 'a \<Rightarrow> 'a list" where
  "deep_copy view v = map (\<lambda>_. v) view"

text \<open>
  \<open>deep_copy\<close> into \<open>Kokkos::subview(view, std::make_pair(lo, hi))\<close>: the
  elements of the range become the value, the others stay.
\<close>

definition deep_copy_subview :: "'a list \<Rightarrow> int \<Rightarrow> int \<Rightarrow> 'a \<Rightarrow> 'a list" where
  "deep_copy_subview view lo hi v =
     map (\<lambda>i. if lo \<le> int i \<and> int i < hi then v else view ! i) [0..<length view]"

text \<open>\<open>KokkosExt::iota\<close> on the first \<open>n\<close> elements of a view.\<close>

definition iota_subview :: "int list \<Rightarrow> nat \<Rightarrow> int list" where
  "iota_subview view n =
     map (\<lambda>i. if i < n then int i else view ! i) [0..<length view]"

subsection \<open>\<open>doBoruvka\<close>\<close>

text \<open>The two \<open>constexpr\<close> switches of \<open>doBoruvka\<close>.\<close>

definition use_lower_bounds :: "ExecutionSpace \<Rightarrow> bool" where
  "use_lower_bounds space = (space = Serial)"

definition use_shared_radii :: "ExecutionSpace \<Rightarrow> bool" where
  "use_shared_radii space = (space = Serial)"

text \<open>The struct's members, then the locals of \<open>doBoruvka\<close> that live across the loop.\<close>

record 'w Boruvka = "'w MinimumSpanningTree" +
  labels :: "int list"
  component_out_edges :: "'w DirectedEdge list"
  weights :: "'w list"
  radii :: "'w list"
  lower_bounds :: "'w list"
  num_edges :: int
  edges_mapping :: "int list"
  sided_parents :: "int list"
  iterations :: int
  num_components :: int
  edges_start :: int
  edges_end :: int
  edge_offsets :: "int list"
  submitted :: "'w kernel list"

text \<open>From the entry of \<open>doBoruvka\<close> to the \<open>do\<close>: the allocations.\<close>

definition Boruvka_begin ::
  "('p, 'b, 'w::zero) Details \<Rightarrow> ExecutionSpace \<Rightarrow> BoruvkaMode \<Rightarrow> nat
    \<Rightarrow> 'w MinimumSpanningTree \<Rightarrow> 'w kernel list \<Rightarrow> 'w Boruvka" where
  "Boruvka_begin D space Mode n this ks =
     MinimumSpanningTree.extend
       (if Mode = HDBSCAN
        then this\<lparr>dendrogram_parents := without_initializing (uninit_int D) (2 * n - 1)\<rparr>
        else this)
       (Boruvka.fields
         (iota_subview (without_initializing (uninit_int D) (2 * n - 1)) n)
         (without_initializing (uninit_out_edge D) n)
         (without_initializing (uninit_float D) n)
         (without_initializing (uninit_float D) n)
         (if use_lower_bounds space then deep_copy (without_initializing (uninit_float D) n) 0
          else [])
         0
         (if Mode = HDBSCAN then without_initializing (uninit_int D) (n - 1) else [])
         (if Mode = HDBSCAN then without_initializing (uninit_int D) (n - 1) else [])
         0
         (int n)
         0
         0
         [0]
         (ks @ [find_parents]))"

text \<open>The body of the \<open>do\<close> loop: one Boruvka iteration.\<close>

definition Boruvka_iteration ::
  "('p, 'b, 'w) Details \<Rightarrow> ExecutionSpace \<Rightarrow> BoruvkaMode \<Rightarrow> 'b \<Rightarrow> 'w Metric \<Rightarrow> nat
    \<Rightarrow> int list \<Rightarrow> 'w Boruvka \<Rightarrow> 'w Boruvka" where
  "Boruvka_iteration D space Mode bvh metric n tree_parents s =
    (let iterations1 = iterations s + 1;
         labels1 = reduceLabels D tree_parents (labels s);
         out_edges0 = deep_copy (component_out_edges s) (uninitialized_edge D);
         weights0 = deep_copy (weights s) (infinity D);
         radii0 = deep_copy (radii s) (infinity D);
         radii1 = resetSharedRadii D bvh labels1 metric radii0;
         found = FindComponentNearestNeighbors D bvh labels1 weights0 out_edges0 metric
                   radii1 (lower_bounds s) (use_shared_radii space);
         weights1 = fst found;
         out_edges1 = fst (snd found);
         radii2 = fst (snd (snd found));
         lower_bounds1 = snd (snd (snd found));
         out_edges2 = retrieveEdges D labels1 weights1 out_edges1;
         lower_bounds2 = (if use_lower_bounds space
                          then updateLowerBounds D labels1 out_edges2 lower_bounds1
                          else lower_bounds1);
         f0 = \<lparr>f_labels = labels1, f_out_edges = out_edges2, f_edges = edges s,
                f_edges_mapping = edges_mapping s, f_num_edges = num_edges s\<rparr>;
         f1 = UnidirectionalEdgesTag D Mode n f0;
         num_edges_host = f_num_edges f1;
         f2 = (if Mode = HDBSCAN then BidirectionalEdgesTag D Mode n f1 else f1);
         sided_parents1 =
           (if Mode = HDBSCAN \<and> iterations1 > 1
            then updateSidedParents D (f_labels f2) (f_edges f2) (f_edges_mapping f2)
                   (sided_parents s) (edges_start s) (edges_end s)
            else sided_parents s);
         dendrogram_parents1 =
           (if Mode = HDBSCAN \<and> \<not> iterations1 > 1
            then assignVertexParents D (f_labels f2) (f_out_edges f2) (f_edges_mapping f2) bvh
                   (dendrogram_parents s)
            else dendrogram_parents s);
         f3 = LabelsTag D Mode n f2
     in s\<lparr>edges := f_edges f3,
          dendrogram_parents := dendrogram_parents1,
          labels := f_labels f3,
          component_out_edges := f_out_edges f3,
          weights := weights1,
          radii := radii2,
          lower_bounds := lower_bounds2,
          num_edges := f_num_edges f3,
          edges_mapping := f_edges_mapping f3,
          sided_parents := sided_parents1,
          iterations := iterations1,
          num_components := int n - num_edges_host,
          edges_start := edges_end s,
          edges_end := num_edges_host,
          edge_offsets := edge_offsets s @ [num_edges_host],
          submitted := submitted s @
            [reduce_labels, reset_shared_radii, find_component_nearest_neighbors metric,
             retrieve_edges] @
            (if use_lower_bounds space then [update_lower_bounds] else []) @
            [update_unidirectional_edges] @
            (if Mode = HDBSCAN
             then [update_bidirectional_edges,
                   if iterations1 > 1 then update_sided_parents (edges_start s) (edges_end s)
                   else compute_vertex_parents]
             else []) @
            [update_labels]\<rparr>)"

text \<open>
  The \<open>do \<dots> while (num_components > 1)\<close> loop. Nothing in the driver bounds the number
  of iterations, so the model counts them down from \<open>fuel\<close>: \<open>None\<close> is a loop that has
  not left after \<open>fuel\<close> iterations.
\<close>

fun Boruvka_loop ::
  "nat \<Rightarrow> ('p, 'b, 'w) Details \<Rightarrow> ExecutionSpace \<Rightarrow> BoruvkaMode \<Rightarrow> 'b \<Rightarrow> 'w Metric \<Rightarrow> nat
    \<Rightarrow> int list \<Rightarrow> 'w Boruvka \<Rightarrow> 'w Boruvka option" where
  "Boruvka_loop 0 D space Mode bvh metric n tree_parents s = None"
| "Boruvka_loop (Suc fuel) D space Mode bvh metric n tree_parents s =
     (let s1 = Boruvka_iteration D space Mode bvh metric n tree_parents s
      in if num_components s1 > 1
         then Boruvka_loop fuel D space Mode bvh metric n tree_parents s1
         else Some s1)"

text \<open>After the loop: the scratch views are resized to 0.\<close>

definition release_scratch :: "'w Boruvka \<Rightarrow> 'w Boruvka" where
  "release_scratch s =
     s\<lparr>edges_mapping := [], lower_bounds := [], radii := [], labels := [], weights := [],
       component_out_edges := []\<rparr>"

text \<open>HDBSCAN only: the edges of the last iteration go to the root chain.\<close>

definition assign_root_chain :: "('p, 'b, 'w) Details \<Rightarrow> 'w Boruvka \<Rightarrow> 'w Boruvka" where
  "assign_root_chain D s =
     s\<lparr>sided_parents :=
         deep_copy_subview (sided_parents s) (edges_start s) (edges_end s) (ROOT_CHAIN_VALUE D)\<rparr>"

text \<open>
  HDBSCAN only: parents, reordered edges and chains from the callee; then the heights,
  \<open>dendrogram_parent_heights(e) = edges(e).weight\<close> for \<open>e\<close> in \<open>[0, n - 1)\<close>.
\<close>

definition finish_dendrogram ::
  "('p, 'b, 'w) Details \<Rightarrow> nat \<Rightarrow> 'w Boruvka \<Rightarrow> 'w Boruvka" where
  "finish_dendrogram D n s =
    (let computed = computeParentsAndReorderEdges D (edges s) (edge_offsets s)
                      (sided_parents s) (dendrogram_parents s) (chain_offsets s)
                      (chain_levels s);
         edges1 = fst computed
     in s\<lparr>edges := edges1,
          dendrogram_parents := fst (snd computed),
          chain_offsets := fst (snd (snd computed)),
          chain_levels := snd (snd (snd computed)),
          sided_parents := [],
          dendrogram_parent_heights := map (\<lambda>e. weight (edges1 ! e)) [0..<n - 1],
          submitted := submitted s @
            [compute_parents_and_reorder_edges (edge_offsets s) (sided_parents s),
             assign_dendrogram_parent_heights]\<rparr>)"

text \<open>From the end of the loop to the end of \<open>doBoruvka\<close>.\<close>

definition Boruvka_end ::
  "('p, 'b, 'w) Details \<Rightarrow> BoruvkaMode \<Rightarrow> nat \<Rightarrow> 'w Boruvka \<Rightarrow> 'w Boruvka" where
  "Boruvka_end D Mode n s =
     (if Mode = HDBSCAN
      then finish_dendrogram D n (assign_root_chain D (release_scratch s))
      else release_scratch s)"

definition doBoruvka ::
  "nat \<Rightarrow> ('p, 'b, 'w::zero) Details \<Rightarrow> ExecutionSpace \<Rightarrow> BoruvkaMode \<Rightarrow> 'b \<Rightarrow> 'w Metric
    \<Rightarrow> 'w MinimumSpanningTree \<Rightarrow> 'w kernel list \<Rightarrow> 'w Boruvka option" where
  "doBoruvka fuel D space Mode bvh metric this ks =
    (let n = bvh_size D bvh;
         tree_parents = findParents D bvh (without_initializing (uninit_int D) (2 * n - 1))
     in map_option (Boruvka_end D Mode n)
          (Boruvka_loop fuel D space Mode bvh metric n tree_parents
             (Boruvka_begin D space Mode n this ks)))"

subsection \<open>The constructor\<close>

text \<open>The member initializers.\<close>

definition initial_members :: "('p, 'b, 'w) Details \<Rightarrow> nat \<Rightarrow> 'w MinimumSpanningTree" where
  "initial_members D sz =
     \<lparr>edges = without_initializing (uninit_edge D) (sz - 1), dendrogram_parents = [],
      dendrogram_parent_heights = [], chain_offsets = [], chain_levels = []\<rparr>"

text \<open>
  \<open>MinimumSpanningTree(space, primitives, k)\<close>. The result is the constructed object
  and the work submitted; \<open>None\<close> when the constructor does not return.
\<close>

definition MinimumSpanningTree_ctor ::
  "nat \<Rightarrow> ('p, 'b, 'w::zero) Details \<Rightarrow> ExecutionSpace \<Rightarrow> BoruvkaMode \<Rightarrow> 'p list \<Rightarrow> int
    \<Rightarrow> ('w MinimumSpanningTree \<times> 'w kernel list) option" where
  "MinimumSpanningTree_ctor fuel D space Mode primitives k =
    (if primitives = [] then None
     else
       let this = initial_members D (length primitives);
           n = length primitives;
           bvh = bvh_construct D primitives;
           finished =
             (if k > 1
              then
                let core_distances = bvh_query_nearest D bvh primitives k (replicate n 0)
                in doBoruvka fuel D space Mode bvh (MutualReachability core_distances) this
                     [BVH_construction, compute_core_distances k]
              else doBoruvka fuel D space Mode bvh Euclidean this [BVH_construction])
       in map_option
            (\<lambda>s. (MinimumSpanningTree.truncate (s\<lparr>edges := finalizeEdges D bvh (edges s)\<rparr>),
                  submitted s @ [finalize_edges]))
            finished)"


subsection \<open>The kernels of one iteration, in closed form\<close>

text \<open>
  What iteration \<open>t + 1\<close> submits, given the edge offsets recorded so far: the range
  handed to \<open>updateSidedParents\<close> is the one of the iteration before.
\<close>

definition round_kernels ::
  "ExecutionSpace \<Rightarrow> BoruvkaMode \<Rightarrow> 'w Metric \<Rightarrow> int list \<Rightarrow> nat \<Rightarrow> 'w kernel list" where
  "round_kernels space Mode metric offs t =
     [reduce_labels, reset_shared_radii, find_component_nearest_neighbors metric,
      retrieve_edges] @
     (if use_lower_bounds space then [update_lower_bounds] else []) @
     [update_unidirectional_edges] @
     (if Mode = HDBSCAN
      then [update_bidirectional_edges,
            if 1 \<le> t then update_sided_parents (offs ! (t - 1)) (offs ! t)
            else compute_vertex_parents]
      else []) @
     [update_labels]"

text \<open>The bookkeeping of the loop: counters, offsets and submitted work agree.\<close>

definition bookkeeping ::
  "'w kernel list \<Rightarrow> ExecutionSpace \<Rightarrow> BoruvkaMode \<Rightarrow> 'w Metric \<Rightarrow> 'w Boruvka \<Rightarrow> bool" where
  "bookkeeping ks0 space Mode metric s =
     (0 \<le> iterations s \<and>
      length (edge_offsets s) = nat (iterations s) + 1 \<and>
      edges_end s = edge_offsets s ! nat (iterations s) \<and>
      edges_start s = (if iterations s = 0 then 0
                       else edge_offsets s ! (nat (iterations s) - 1)) \<and>
      submitted s =
        ks0 @ concat (map (round_kernels space Mode metric (edge_offsets s))
                        [0..<nat (iterations s)]))"

text \<open>The kernels that write the dendrogram during the loop.\<close>

fun dendrogram_kernel :: "'w kernel \<Rightarrow> bool" where
  "dendrogram_kernel compute_vertex_parents = True"
| "dendrogram_kernel (update_sided_parents a b) = True"
| "dendrogram_kernel _ = False"



section \<open>Properties of the driver\<close>

subsection \<open>One iteration\<close>

lemma iteration_iterations:
  "iterations (Boruvka_iteration D space Mode bvh metric n tp s) = iterations s + 1"
  by (simp add: Boruvka_iteration_def Let_def)

lemma iteration_edge_offsets:
  "edge_offsets (Boruvka_iteration D space Mode bvh metric n tp s) =
     edge_offsets s @ [edges_end (Boruvka_iteration D space Mode bvh metric n tp s)]"
  by (simp add: Boruvka_iteration_def Let_def)

lemma iteration_edges_start:
  "edges_start (Boruvka_iteration D space Mode bvh metric n tp s) = edges_end s"
  by (simp add: Boruvka_iteration_def Let_def)

lemma iteration_num_components:
  "num_components (Boruvka_iteration D space Mode bvh metric n tp s) =
     int n - edges_end (Boruvka_iteration D space Mode bvh metric n tp s)"
  by (simp add: Boruvka_iteration_def Let_def)

lemma iteration_submitted:
  "submitted (Boruvka_iteration D space Mode bvh metric n tp s) =
     submitted s @
     [reduce_labels, reset_shared_radii, find_component_nearest_neighbors metric,
      retrieve_edges] @
     (if use_lower_bounds space then [update_lower_bounds] else []) @
     [update_unidirectional_edges] @
     (if Mode = HDBSCAN
      then [update_bidirectional_edges,
            if iterations s + 1 > 1 then update_sided_parents (edges_start s) (edges_end s)
            else compute_vertex_parents]
      else []) @
     [update_labels]"
  by (simp add: Boruvka_iteration_def Let_def)

lemma iteration_frame:
  "dendrogram_parent_heights (Boruvka_iteration D space Mode bvh metric n tp s) =
     dendrogram_parent_heights s"
  "chain_offsets (Boruvka_iteration D space Mode bvh metric n tp s) = chain_offsets s"
  "chain_levels (Boruvka_iteration D space Mode bvh metric n tp s) = chain_levels s"
  "dendrogram_parents (Boruvka_iteration D space MST bvh metric n tp s) =
     dendrogram_parents s"
  by (simp_all add: Boruvka_iteration_def Let_def)

lemma round_kernels_append:
  assumes "t < length offs"
  shows "round_kernels space Mode metric (offs @ [h]) t = round_kernels space Mode metric offs t"
proof -
  from assms have "t - 1 < length offs" by arith
  with assms have "(offs @ [h]) ! t = offs ! t" "(offs @ [h]) ! (t - 1) = offs ! (t - 1)"
    by (simp_all add: nth_append)
  then show ?thesis by (simp add: round_kernels_def)
qed

lemma iteration_bookkeeping:
  assumes "bookkeeping ks0 space Mode metric s"
  shows "bookkeeping ks0 space Mode metric (Boruvka_iteration D space Mode bvh metric n tp s)"
proof -
  let ?s = "Boruvka_iteration D space Mode bvh metric n tp s"
  let ?T = "nat (iterations s)"
  let ?offs = "edge_offsets s"
  from assms have nonneg: "0 \<le> iterations s"
    and len: "length ?offs = ?T + 1"
    and e_end: "edges_end s = ?offs ! ?T"
    and e_start: "edges_start s = (if iterations s = 0 then 0 else ?offs ! (?T - 1))"
    and sub: "submitted s = ks0 @ concat (map (round_kernels space Mode metric ?offs) [0..<?T])"
    by (simp_all add: bookkeeping_def)
  have T1: "nat (iterations ?s) = Suc ?T"
    using nonneg by (simp add: iteration_iterations nat_add_distrib)
  have offs1: "edge_offsets ?s = ?offs @ [edges_end ?s]"
    by (rule iteration_edge_offsets)
  have old: "map (round_kernels space Mode metric (?offs @ [edges_end ?s])) [0..<?T] =
             map (round_kernels space Mode metric ?offs) [0..<?T]"
    using len by (intro map_cong refl round_kernels_append) simp
  have start_eq: "1 \<le> ?T \<Longrightarrow> edges_start s = ?offs ! (?T - 1)"
    using e_start nonneg by (auto split: if_splits)
  have new: "round_kernels space Mode metric (?offs @ [edges_end ?s]) ?T =
     [reduce_labels, reset_shared_radii, find_component_nearest_neighbors metric,
      retrieve_edges] @
     (if use_lower_bounds space then [update_lower_bounds] else []) @
     [update_unidirectional_edges] @
     (if Mode = HDBSCAN
      then [update_bidirectional_edges,
            if iterations s + 1 > 1 then update_sided_parents (edges_start s) (edges_end s)
            else compute_vertex_parents]
      else []) @
     [update_labels]"
  proof (cases "1 \<le> ?T")
    case True
    then have gt: "iterations s + 1 > 1" by linarith
    have "?T - 1 < length ?offs" using len by arith
    then have nth1: "(?offs @ [h]) ! (?T - Suc 0) = edges_start s" for h
      using True start_eq by (simp add: nth_append)
    have nth2: "(?offs @ [h]) ! ?T = edges_end s" for h
      using len e_end by (simp add: nth_append)
    show ?thesis using True gt by (simp add: round_kernels_def nth1 nth2)
  next
    case False
    then have "\<not> iterations s + 1 > 1" using nonneg by linarith
    then show ?thesis using False by (simp add: round_kernels_def)
  qed
  have sub1: "submitted ?s =
      ks0 @ concat (map (round_kernels space Mode metric (edge_offsets ?s)) [0..<Suc ?T])"
    unfolding offs1 by (simp only: iteration_submitted sub upt_Suc_append le0 map_append
        concat_append old new list.map concat.simps append_Nil2 append_assoc)
  have "0 \<le> iterations ?s" using nonneg by (simp add: iteration_iterations)
  moreover have "length (edge_offsets ?s) = nat (iterations ?s) + 1"
    using len by (simp add: offs1 T1)
  moreover have "edges_end ?s = edge_offsets ?s ! nat (iterations ?s)"
    using len by (simp add: offs1 T1 nth_append)
  moreover have "edges_start ?s =
      (if iterations ?s = 0 then 0 else edge_offsets ?s ! (nat (iterations ?s) - 1))"
  proof -
    have "iterations ?s \<noteq> 0" using nonneg by (simp add: iteration_iterations)
    moreover have "edge_offsets ?s ! (nat (iterations ?s) - 1) = edges_end s"
      unfolding offs1 T1 using len e_end by (simp add: nth_append)
    ultimately show ?thesis by (simp add: iteration_edges_start)
  qed
  ultimately show ?thesis
    using sub1 by (simp add: bookkeeping_def T1)
qed

subsection \<open>The loop\<close>

lemma loop_bookkeeping:
  assumes "Boruvka_loop fuel D space Mode bvh metric n tp s = Some r"
    and "bookkeeping ks0 space Mode metric s"
  shows "bookkeeping ks0 space Mode metric r \<and> iterations s < iterations r"
  using assms
proof (induction fuel arbitrary: s)
  case 0
  then show ?case by simp
next
  case (Suc fuel)
  let ?s1 = "Boruvka_iteration D space Mode bvh metric n tp s"
  have b1: "bookkeeping ks0 space Mode metric ?s1"
    using Suc.prems(2) by (rule iteration_bookkeeping)
  have i1: "iterations s < iterations ?s1" by (simp add: iteration_iterations)
  show ?case
  proof (cases "num_components ?s1 > 1")
    case True
    then have "Boruvka_loop fuel D space Mode bvh metric n tp ?s1 = Some r"
      using Suc.prems(1) by (simp add: Let_def)
    from Suc.IH [OF this b1] i1 show ?thesis by simp
  next
    case False
    then have "r = ?s1" using Suc.prems(1) by (simp add: Let_def)
    then show ?thesis using b1 i1 by simp
  qed
qed

lemma loop_frame:
  assumes "Boruvka_loop fuel D space Mode bvh metric n tp s = Some r"
  shows "dendrogram_parent_heights r = dendrogram_parent_heights s \<and>
         chain_offsets r = chain_offsets s \<and> chain_levels r = chain_levels s \<and>
         (Mode = MST \<longrightarrow> dendrogram_parents r = dendrogram_parents s)"
  using assms
proof (induction fuel arbitrary: s)
  case 0
  then show ?case by simp
next
  case (Suc fuel)
  let ?s1 = "Boruvka_iteration D space Mode bvh metric n tp s"
  show ?case
  proof (cases "num_components ?s1 > 1")
    case True
    then have "Boruvka_loop fuel D space Mode bvh metric n tp ?s1 = Some r"
      using Suc.prems by (simp add: Let_def)
    from Suc.IH [OF this] show ?thesis by (auto simp: iteration_frame)
  next
    case False
    then have "r = ?s1" using Suc.prems by (simp add: Let_def)
    then show ?thesis by (auto simp: iteration_frame)
  qed
qed

lemma begin_bookkeeping:
  "bookkeeping (ks @ [find_parents]) space Mode metric (Boruvka_begin D space Mode n this ks)"
  by (simp add: bookkeeping_def Boruvka_begin_def MinimumSpanningTree.defs Boruvka.defs)

lemma begin_frame:
  "dendrogram_parent_heights (Boruvka_begin D space Mode n this ks) =
     dendrogram_parent_heights this"
  "chain_offsets (Boruvka_begin D space Mode n this ks) = chain_offsets this"
  "chain_levels (Boruvka_begin D space Mode n this ks) = chain_levels this"
  "dendrogram_parents (Boruvka_begin D space MST n this ks) = dendrogram_parents this"
  by (simp_all add: Boruvka_begin_def MinimumSpanningTree.defs Boruvka.defs)


section \<open>The callees, modelled from the spec\<close>

text \<open>
  None of the callees is in the header. The definitions of this section follow the
  specification of the algorithm; they give the driver something to run on, and the
  properties of the whole construction are stated for them. They take the distance of
  two points, \<open>d\<close>, and the float infinity, \<open>infty\<close>.
\<close>

subsection \<open>Hierarchy, parents, labels of the inner nodes\<close>

text \<open>
  Modelled from the spec: the hierarchy is a black box with the points at its \<open>N\<close>
  leaves and \<open>N - 1\<close> inner nodes, in one index space of \<open>2N - 1\<close> nodes. The stand-in
  keeps the points in their order (leaf \<open>i\<close> is node \<open>i\<close> and holds point \<open>i\<close>); the
  inner nodes \<open>N, \<dots>, 2N - 2\<close> form a chain, node \<open>N + j\<close> over the leaves \<open>0, \<dots>, j + 1\<close>.
  The parent of the root is the sentinel \<open>-1\<close>.
\<close>

definition chain_parent :: "nat \<Rightarrow> nat \<Rightarrow> int" where
  "chain_parent n v =
     (if v + 2 = 2 * n then - 1
      else if v = 0 then int n
      else if v < n then int (n + v - 1)
      else int (v + 1))"

definition findParents_spec :: "'p list \<Rightarrow> int list \<Rightarrow> int list" where
  "findParents_spec bvh tree_parents = map (chain_parent (length bvh)) [0..<length tree_parents]"

text \<open>Node \<open>u\<close> lies in the subtree of node \<open>v\<close>: at most \<open>k\<close> steps up the parents.\<close>

fun below :: "int list \<Rightarrow> nat \<Rightarrow> int \<Rightarrow> nat \<Rightarrow> bool" where
  "below tp 0 u v = (u = int v)"
| "below tp (Suc k) u v =
     (u = int v \<or> (0 \<le> u \<and> nat u < length tp \<and> below tp k (tp ! nat u) v))"

definition MULTIPLE_LABELS :: int where
  "MULTIPLE_LABELS = - 1"

text \<open>
  Modelled from the spec: an inner node's label is the one label of all the leaves
  below it, or \<open>MULTIPLE_LABELS\<close> when they carry more than one. The labels of the
  leaves, the first \<open>n\<close> entries, stay.
\<close>

definition reduce_node :: "int list \<Rightarrow> int list \<Rightarrow> nat \<Rightarrow> nat \<Rightarrow> int" where
  "reduce_node tp lab n v =
     (case [lab ! i. i \<leftarrow> [0..<n], below tp (length tp) (int i) v] of
        [] \<Rightarrow> lab ! v
      | l # ls \<Rightarrow> if list_all (\<lambda>x. x = l) ls then l else MULTIPLE_LABELS)"

definition reduceLabels_spec :: "int list \<Rightarrow> int list \<Rightarrow> int list" where
  "reduceLabels_spec tp lab =
     (let n = (length lab + 1) div 2
      in map (\<lambda>v. if v < n then lab ! v else reduce_node tp lab n v)
           [0..<length lab])"

subsection \<open>Metric and core distances\<close>

text \<open>
  Modelled from the spec: the core distance of a point is the distance to its \<open>k\<close>-th
  nearest neighbour among the points of the hierarchy (the point itself is the first);
  with fewer than \<open>k\<close> points it is the largest distance found.
\<close>

definition core_distance :: "('p \<Rightarrow> 'p \<Rightarrow> 'w::linorder) \<Rightarrow> 'p list \<Rightarrow> nat \<Rightarrow> 'p \<Rightarrow> 'w" where
  "core_distance d bvh k p =
     (let ds = sort (map (d p) bvh) in ds ! (min k (length ds) - 1))"

definition bvh_query_nearest_spec ::
  "('p \<Rightarrow> 'p \<Rightarrow> 'w::linorder) \<Rightarrow> 'p list \<Rightarrow> 'p list \<Rightarrow> int \<Rightarrow> 'w list \<Rightarrow> 'w list" where
  "bvh_query_nearest_spec d bvh points k core_distances =
     map (core_distance d bvh (nat k)) (take (length core_distances) points)"

text \<open>
  Modelled from the spec: the Euclidean metric is the distance of the two points, the
  mutual reachability metric \<open>max(core[i], core[j], euclidean(i, j))\<close>.
\<close>

definition metric_distance ::
  "('p \<Rightarrow> 'p \<Rightarrow> 'w::linorder) \<Rightarrow> 'p list \<Rightarrow> 'w Metric \<Rightarrow> nat \<Rightarrow> nat \<Rightarrow> 'w" where
  "metric_distance d bvh m i j =
     (case m of
        Euclidean \<Rightarrow> d (bvh ! i) (bvh ! j)
      | MutualReachability core \<Rightarrow> max (core ! i) (max (core ! j) (d (bvh ! i) (bvh ! j))))"

subsection \<open>The nearest neighbour of every component\<close>

text \<open>
  Modelled from the spec: edges are ordered by weight, then by the smaller endpoint,
  then by the larger one.
\<close>

definition edge_key :: "'w DirectedEdge \<Rightarrow> 'w \<times> int \<times> int" where
  "edge_key e = (de_weight e, min (de_source e) (de_target e), max (de_source e) (de_target e))"

definition combine_edge :: "'w::linorder DirectedEdge \<Rightarrow> 'w DirectedEdge \<Rightarrow> 'w DirectedEdge" where
  "combine_edge new cur = (if edge_key new < edge_key cur then new else cur)"

text \<open>The directed edges from leaf \<open>i\<close> to the leaves with another label.\<close>

definition leaf_candidates ::
  "('p \<Rightarrow> 'p \<Rightarrow> 'w::linorder) \<Rightarrow> 'p list \<Rightarrow> 'w Metric \<Rightarrow> int list \<Rightarrow> nat
    \<Rightarrow> 'w DirectedEdge list" where
  "leaf_candidates d bvh m lab i =
     [\<lparr>de_source = int i, de_target = int j, de_weight = metric_distance d bvh m i j\<rparr>.
        j \<leftarrow> [0..<length bvh], lab ! j \<noteq> lab ! i]"

text \<open>The views the search writes.\<close>

record 'w search =
  s_weights :: "'w list"
  s_out_edges :: "'w DirectedEdge list"
  s_radii :: "'w list"
  s_lower_bounds :: "'w list"

text \<open>
  Modelled from the spec: the task of leaf \<open>i\<close>, with \<open>c = label(i)\<close>. The best edge so
  far is \<open>component_out_edges[c]\<close>, its weight \<open>d_best = weights[c]\<close>. If there is a lower
  bound for the leaf and it is above \<open>d_best\<close>, the leaf is skipped. Otherwise every leaf
  with another label is a candidate and is combined into the best edge under the order
  of the edges; then \<open>weights[c]\<close> takes the minimum with the new \<open>d_best\<close>, as does the
  radius of \<open>c\<close> when it is shared, and the lower bound of the leaf becomes \<open>d_best\<close>.
  The stand-in visits every leaf: pruning by bounding boxes and radii only saves work.
\<close>

definition search_leaf ::
  "('p \<Rightarrow> 'p \<Rightarrow> 'w::linorder) \<Rightarrow> 'p list \<Rightarrow> 'w Metric \<Rightarrow> int list \<Rightarrow> bool \<Rightarrow> nat
    \<Rightarrow> 'w search \<Rightarrow> 'w search" where
  "search_leaf d bvh m lab shared i st =
     (let c = nat (lab ! i)
      in if i < length (s_lower_bounds st) \<and> s_weights st ! c < s_lower_bounds st ! i then st
         else
           let best = fold combine_edge (leaf_candidates d bvh m lab i) (s_out_edges st ! c);
               d_best = min (s_weights st ! c) (de_weight best)
           in \<lparr>s_weights = (s_weights st)[c := d_best],
               s_out_edges = (s_out_edges st)[c := best],
               s_radii = (if shared then (s_radii st)[c := min (s_radii st ! c) d_best]
                          else s_radii st),
               s_lower_bounds = (s_lower_bounds st)[i := d_best]\<rparr>)"

text \<open>
  Modelled from the spec: the search runs the task of every leaf. The stand-in runs
  them one after the other, in the order of the leaves.
\<close>

definition FindComponentNearestNeighbors_spec ::
  "('p \<Rightarrow> 'p \<Rightarrow> 'w::linorder) \<Rightarrow> 'p list \<Rightarrow> int list \<Rightarrow> 'w list \<Rightarrow> 'w DirectedEdge list
    \<Rightarrow> 'w Metric \<Rightarrow> 'w list \<Rightarrow> 'w list \<Rightarrow> bool
    \<Rightarrow> 'w list \<times> 'w DirectedEdge list \<times> 'w list \<times> 'w list" where
  "FindComponentNearestNeighbors_spec d bvh lab ws out_edges m rad lbs shared =
     (let st = fold (search_leaf d bvh m lab shared) [0..<length bvh]
                 \<lparr>s_weights = ws, s_out_edges = out_edges, s_radii = rad,
                  s_lower_bounds = lbs\<rparr>
      in (s_weights st, s_out_edges st, s_radii st, s_lower_bounds st))"

text \<open>
  Modelled from the spec: a lower bound is reset to 0 when the target of the leaf's
  best candidate has the label of the leaf.
\<close>

definition updateLowerBounds_spec ::
  "int list \<Rightarrow> 'w DirectedEdge list \<Rightarrow> 'w::zero list \<Rightarrow> 'w list" where
  "updateLowerBounds_spec lab out_edges lbs =
     map (\<lambda>i. let t = de_target (out_edges ! nat (lab ! i))
              in if 0 \<le> t \<and> lab ! nat t = lab ! i then 0 else lbs ! i)
       [0..<length lbs]"

subsection \<open>The union step\<close>

text \<open>A winner is real when it is not the uninitialized edge, whose endpoints are \<open>-1\<close>.\<close>

definition real_winner :: "'w DirectedEdge \<Rightarrow> bool" where
  "real_winner e = (0 \<le> de_target e)"

definition next_component :: "int list \<Rightarrow> 'w DirectedEdge list \<Rightarrow> nat \<Rightarrow> nat" where
  "next_component lab out_edges c = nat (lab ! nat (de_target (out_edges ! c)))"

text \<open>The winners of \<open>c\<close> and \<open>c'\<close> are the same edge, in the two directions.\<close>

definition mutual_pair :: "'w DirectedEdge list \<Rightarrow> nat \<Rightarrow> nat \<Rightarrow> bool" where
  "mutual_pair out_edges c c' =
     (de_target (out_edges ! c') = de_source (out_edges ! c) \<and>
      de_source (out_edges ! c') = de_target (out_edges ! c))"

text \<open>
  Modelled from the spec: a component \<open>c\<close> with a real winner \<open>(u, w)\<close> and
  \<open>c' = label(w)\<close> emits its winner when \<open>c < c'\<close> or when the two winners are no mutual
  pair; of a mutual pair the component with the smaller id emits. The edge goes to the
  slot the counter gives, and in HDBSCAN mode \<open>edges_mapping[c]\<close> records the slot.
  The stand-in visits the components in the order of their ids.
\<close>

definition emits :: "int list \<Rightarrow> 'w DirectedEdge list \<Rightarrow> nat \<Rightarrow> bool" where
  "emits lab out_edges c =
     (lab ! c = int c \<and> real_winner (out_edges ! c) \<and>
      (c < next_component lab out_edges c \<or>
       \<not> mutual_pair out_edges c (next_component lab out_edges c)))"

definition as_weighted :: "'w DirectedEdge \<Rightarrow> 'w WeightedEdge" where
  "as_weighted e = \<lparr>source = de_source e, target = de_target e, weight = de_weight e\<rparr>"

definition emit ::
  "BoruvkaMode \<Rightarrow> nat \<Rightarrow> 'w UpdateComponentsAndEdges \<Rightarrow> 'w UpdateComponentsAndEdges" where
  "emit Mode c f =
     (if emits (f_labels f) (f_out_edges f) c
      then f\<lparr>f_edges := (f_edges f)[nat (f_num_edges f) := as_weighted (f_out_edges f ! c)],
             f_edges_mapping := (if Mode = HDBSCAN
                                 then (f_edges_mapping f)[c := f_num_edges f]
                                 else f_edges_mapping f),
             f_num_edges := f_num_edges f + 1\<rparr>
      else f)"

definition UnidirectionalEdgesTag_spec ::
  "BoruvkaMode \<Rightarrow> nat \<Rightarrow> 'w UpdateComponentsAndEdges \<Rightarrow> 'w UpdateComponentsAndEdges" where
  "UnidirectionalEdgesTag_spec Mode n f = fold (emit Mode) [0..<n] f"

text \<open>
  Modelled from the spec: the second pass of HDBSCAN mode records the merge for the
  other half of a mutual pair: the component that did not emit takes the slot of its
  partner.
\<close>

definition record_partner ::
  "nat \<Rightarrow> 'w UpdateComponentsAndEdges \<Rightarrow> 'w UpdateComponentsAndEdges" where
  "record_partner c f =
     (let c' = next_component (f_labels f) (f_out_edges f) c
      in if f_labels f ! c = int c \<and> real_winner (f_out_edges f ! c) \<and>
            \<not> emits (f_labels f) (f_out_edges f) c \<and> c' < length (f_edges_mapping f)
         then f\<lparr>f_edges_mapping := (f_edges_mapping f)[c := f_edges_mapping f ! c']\<rparr>
         else f)"

definition BidirectionalEdgesTag_spec ::
  "BoruvkaMode \<Rightarrow> nat \<Rightarrow> 'w UpdateComponentsAndEdges \<Rightarrow> 'w UpdateComponentsAndEdges" where
  "BidirectionalEdgesTag_spec Mode n f = fold record_partner [0..<n] f"

text \<open>
  Modelled from the spec: merging gives the merged component the minimum of the two
  ids. A component points to the component of its winner's target, the two components
  of a mutual pair to the smaller of their ids; the pointers are followed until they
  stay (at most \<open>n\<close> steps), and every leaf takes the label its label leads to.
\<close>

definition parent_component :: "int list \<Rightarrow> 'w DirectedEdge list \<Rightarrow> nat \<Rightarrow> nat" where
  "parent_component lab out_edges c =
     (if \<not> real_winner (out_edges ! c) then c
      else let c' = next_component lab out_edges c
           in if mutual_pair out_edges c c' then min c c' else c')"

definition final_component :: "int list \<Rightarrow> 'w DirectedEdge list \<Rightarrow> nat \<Rightarrow> nat \<Rightarrow> nat" where
  "final_component lab out_edges n c = (parent_component lab out_edges ^^ n) c"

definition LabelsTag_spec ::
  "BoruvkaMode \<Rightarrow> nat \<Rightarrow> 'w UpdateComponentsAndEdges \<Rightarrow> 'w UpdateComponentsAndEdges" where
  "LabelsTag_spec Mode n f =
     f\<lparr>f_labels :=
         map (\<lambda>i. if i < n
                  then int (final_component (f_labels f) (f_out_edges f) n (nat (f_labels f ! i)))
                  else f_labels f ! i)
           [0..<length (f_labels f)]\<rparr>"


subsection \<open>The dendrogram\<close>

text \<open>
  Modelled from the spec: every leaf \<open>i\<close> gets as parent the edge its component emitted
  in the first iteration, \<open>dendrogram_parents[N - 1 + i] := edges_mapping[label(i)]\<close>.
  A label outside \<open>edges_mapping\<close> leaves the entry as it is.
\<close>

definition assignVertexParents_spec ::
  "int list \<Rightarrow> 'w DirectedEdge list \<Rightarrow> int list \<Rightarrow> 'p list \<Rightarrow> int list \<Rightarrow> int list" where
  "assignVertexParents_spec lab out_edges mapping bvh parents =
     (let n = length bvh
      in map (\<lambda>v. if n - 1 \<le> v \<and> nat (lab ! (v - (n - 1))) < length mapping
                  then mapping ! nat (lab ! (v - (n - 1)))
                  else parents ! v)
           [0..<length parents])"

text \<open>
  Modelled from the spec: for an edge of the range, \<open>sided_parents\<close> stores the id of the
  component that survived the merge, which is the label its source has by now. The
  sign that tells the two subtrees apart is left out.
\<close>

definition updateSidedParents_spec ::
  "int list \<Rightarrow> 'w WeightedEdge list \<Rightarrow> int list \<Rightarrow> int list \<Rightarrow> int \<Rightarrow> int \<Rightarrow> int list" where
  "updateSidedParents_spec lab es mapping sided lo hi =
     map (\<lambda>e. if lo \<le> int e \<and> int e < hi \<and> e < length es
              then lab ! nat (source (es ! e))
              else sided ! e)
       [0..<length sided]"

text \<open>The vertices joined to \<open>c\<close> by the first \<open>k\<close> edges: \<open>m\<close> rounds of one more edge.\<close>

definition grow :: "'w WeightedEdge list \<Rightarrow> int list \<Rightarrow> int list" where
  "grow es vs =
     vs @ [target e. e \<leftarrow> es, source e \<in> set vs] @ [source e. e \<leftarrow> es, target e \<in> set vs]"

definition joined :: "'w WeightedEdge list \<Rightarrow> nat \<Rightarrow> nat \<Rightarrow> int \<Rightarrow> int list" where
  "joined es k m c = (grow (take k es) ^^ m) [c]"

text \<open>The iteration that emitted slot \<open>e\<close> ends at the first offset above \<open>e\<close>.\<close>

definition round_end :: "int list \<Rightarrow> nat \<Rightarrow> nat" where
  "round_end offsets e =
     (case filter (\<lambda>x. int e < x) offsets of [] \<Rightarrow> Suc e | x # _ \<Rightarrow> nat x)"

text \<open>
  Modelled from the spec: the parent of an edge \<open>e\<close> is the first edge of a later
  iteration with an endpoint in the component of \<open>e\<close>'s sided parent; an edge marked
  \<open>ROOT_CHAIN_VALUE\<close>, or one whose search falls off the end, points to the root
  sentinel \<open>-1\<close>. Leaves keep their parents. The stand-in leaves the edges in their
  slots, and takes as a chain a run of consecutive edges of equal weight and parent.
\<close>

definition edge_parent ::
  "int \<Rightarrow> 'w WeightedEdge list \<Rightarrow> int list \<Rightarrow> int list \<Rightarrow> nat \<Rightarrow> int" where
  "edge_parent root_chain es offsets sided e =
     (if sided ! e = root_chain then - 1
      else case filter (\<lambda>e'. let vs = joined es (round_end offsets e) (length es) (sided ! e)
                             in source (es ! e') \<in> set vs \<or> target (es ! e') \<in> set vs)
                  [round_end offsets e..<length es] of
             [] \<Rightarrow> - 1
           | e' # _ \<Rightarrow> int e')"

fun chain_starts :: "('a \<times> int) list \<Rightarrow> nat \<Rightarrow> int list" where
  "chain_starts [] i = [int i]"
| "chain_starts [x] i = [int (Suc i)]"
| "chain_starts (x # y # xs) i =
     (if x = y then chain_starts (y # xs) (Suc i)
      else int (Suc i) # chain_starts (y # xs) (Suc i))"

definition computeParentsAndReorderEdges_spec ::
  "int \<Rightarrow> 'w WeightedEdge list \<Rightarrow> int list \<Rightarrow> int list \<Rightarrow> int list \<Rightarrow> int list \<Rightarrow> int list
    \<Rightarrow> 'w WeightedEdge list \<times> int list \<times> int list \<times> int list" where
  "computeParentsAndReorderEdges_spec root_chain es offsets sided parents c_offsets c_levels =
     (let ps = map (\<lambda>v. if v < length es \<and> v < length sided
                        then edge_parent root_chain es offsets sided v
                        else parents ! v)
                 [0..<length parents];
          starts = 0 # chain_starts (zip (map weight es) ps) 0
      in (es, ps, starts, map int [0..<length starts - 1]))"

text \<open>
  Modelled from the spec: the edges are compacted to the final \<open>N - 1\<close> entries. Leaf
  \<open>i\<close> of the stand-in hierarchy is point \<open>i\<close>, so the endpoints stay.
\<close>

definition finalizeEdges_spec :: "'p list \<Rightarrow> 'w WeightedEdge list \<Rightarrow> 'w WeightedEdge list" where
  "finalizeEdges_spec bvh es = take (length bvh - 1) es"

subsection \<open>All callees\<close>

text \<open>
  Modelled from the spec: the callees together. The spec says nothing on
  \<open>retrieveEdges\<close> and \<open>resetSharedRadii\<close>: the search has left the final winners, and
  the radii are only an upper bound, so both leave their view as it is. The
  uninitialized edge has weight infinity and endpoints \<open>-1\<close>; the values of
  \<open>ROOT_CHAIN_VALUE\<close> and of uninitialized memory are picked.
\<close>

definition Details_spec :: "('p \<Rightarrow> 'p \<Rightarrow> 'w) \<Rightarrow> 'w \<Rightarrow> ('p, 'p list, 'w::{linorder,zero}) Details" where
  "Details_spec d infty =
     \<lparr>bvh_construct = (\<lambda>points. points),
      bvh_size = length,
      bvh_query_nearest = bvh_query_nearest_spec d,
      findParents = findParents_spec,
      reduceLabels = reduceLabels_spec,
      resetSharedRadii = (\<lambda>bvh lab m rad. rad),
      FindComponentNearestNeighbors = FindComponentNearestNeighbors_spec d,
      retrieveEdges = (\<lambda>lab ws out_edges. out_edges),
      updateLowerBounds = updateLowerBounds_spec,
      UnidirectionalEdgesTag = UnidirectionalEdgesTag_spec,
      BidirectionalEdgesTag = BidirectionalEdgesTag_spec,
      LabelsTag = LabelsTag_spec,
      updateSidedParents = updateSidedParents_spec,
      assignVertexParents = assignVertexParents_spec,
      computeParentsAndReorderEdges = computeParentsAndReorderEdges_spec (- 2),
      finalizeEdges = finalizeEdges_spec,
      ROOT_CHAIN_VALUE = - 2,
      infinity = infty,
      uninitialized_edge = \<lparr>de_source = - 1, de_target = - 1, de_weight = infty\<rparr>,
      uninit_int = (\<lambda>i. - 9),
      uninit_float = (\<lambda>i. infty),
      uninit_edge = (\<lambda>i. \<lparr>source = - 9, target = - 9, weight = infty\<rparr>),
      uninit_out_edge = (\<lambda>i. \<lparr>de_source = - 9, de_target = - 9, de_weight = infty\<rparr>)\<rparr>"

text \<open>Points on a line, with whole coordinates: the distance is the difference.\<close>

definition line_distance :: "int \<Rightarrow> int \<Rightarrow> enat" where
  "line_distance a b = enat (nat \<bar>a - b\<bar>)"

definition line_Details :: "(int, int list, enat) Details" where
  "line_Details = Details_spec line_distance \<infinity>"


section \<open>The constructor, for every implementation of the callees\<close>

text \<open>The metric and the first kernels the constructor chooses from \<open>k\<close>.\<close>

definition ctor_metric :: "('p, 'b, 'w::zero) Details \<Rightarrow> 'p list \<Rightarrow> int \<Rightarrow> 'w Metric" where
  "ctor_metric D primitives k =
     (if k > 1
      then MutualReachability
             (bvh_query_nearest D (bvh_construct D primitives) primitives k
                (replicate (length primitives) 0))
      else Euclidean)"

definition ctor_prefix :: "int \<Rightarrow> 'w kernel list" where
  "ctor_prefix k =
     (if k > 1 then [BVH_construction, compute_core_distances k] else [BVH_construction])"

text \<open>The state in which the constructor's call of \<open>doBoruvka\<close> enters the loop.\<close>

definition ctor_begin ::
  "('p, 'b, 'w::zero) Details \<Rightarrow> ExecutionSpace \<Rightarrow> BoruvkaMode \<Rightarrow> 'p list \<Rightarrow> int \<Rightarrow> 'w Boruvka" where
  "ctor_begin D space Mode primitives k =
     Boruvka_begin D space Mode (bvh_size D (bvh_construct D primitives))
       (initial_members D (length primitives)) (ctor_prefix k)"

text \<open>The state in which that loop ends, if it does within \<open>fuel\<close> iterations.\<close>

definition ctor_loop ::
  "nat \<Rightarrow> ('p, 'b, 'w::zero) Details \<Rightarrow> ExecutionSpace \<Rightarrow> BoruvkaMode \<Rightarrow> 'p list \<Rightarrow> int
    \<Rightarrow> 'w Boruvka option" where
  "ctor_loop fuel D space Mode primitives k =
     (let bvh = bvh_construct D primitives;
          n = bvh_size D bvh
      in Boruvka_loop fuel D space Mode bvh (ctor_metric D primitives k) n
           (findParents D bvh (without_initializing (uninit_int D) (2 * n - 1)))
           (ctor_begin D space Mode primitives k))"

lemma ctor_unfold:
  "MinimumSpanningTree_ctor fuel D space Mode primitives k =
     (if primitives = [] then None
      else map_option
             (\<lambda>s. let r = Boruvka_end D Mode (bvh_size D (bvh_construct D primitives)) s
                  in (MinimumSpanningTree.truncate
                        (r\<lparr>edges := finalizeEdges D (bvh_construct D primitives) (edges r)\<rparr>),
                      submitted r @ [finalize_edges]))
             (ctor_loop fuel D space Mode primitives k))"
  by (simp add: MinimumSpanningTree_ctor_def doBoruvka_def ctor_loop_def ctor_begin_def
      ctor_metric_def ctor_prefix_def Let_def option.map_comp comp_def)

lemma ctor_SomeD:
  assumes "MinimumSpanningTree_ctor fuel D space Mode primitives k = Some (mst, ks)"
  obtains s where "ctor_loop fuel D space Mode primitives k = Some s"
    and "mst = MinimumSpanningTree.truncate
           ((Boruvka_end D Mode (bvh_size D (bvh_construct D primitives)) s)
             \<lparr>edges := finalizeEdges D (bvh_construct D primitives)
                 (edges (Boruvka_end D Mode (bvh_size D (bvh_construct D primitives)) s))\<rparr>)"
    and "ks = submitted (Boruvka_end D Mode (bvh_size D (bvh_construct D primitives)) s) @
              [finalize_edges]"
    and "primitives \<noteq> []"
  using assms unfolding ctor_unfold by (auto simp: Let_def split: if_splits)

lemma ctor_loop_bookkeeping:
  assumes "ctor_loop fuel D space Mode primitives k = Some s"
  shows "bookkeeping (ctor_prefix k @ [find_parents]) space Mode (ctor_metric D primitives k) s"
    and "0 < iterations s"
proof -
  have b: "bookkeeping (ctor_prefix k @ [find_parents]) space Mode (ctor_metric D primitives k)
             (ctor_begin D space Mode primitives k)"
    unfolding ctor_begin_def by (rule begin_bookkeeping)
  have i: "iterations (ctor_begin D space Mode primitives k) = 0"
    by (simp add: ctor_begin_def Boruvka_begin_def MinimumSpanningTree.defs Boruvka.defs)
  from assms have "Boruvka_loop fuel D space Mode (bvh_construct D primitives)
      (ctor_metric D primitives k) (bvh_size D (bvh_construct D primitives))
      (findParents D (bvh_construct D primitives)
        (without_initializing (uninit_int D) (2 * bvh_size D (bvh_construct D primitives) - 1)))
      (ctor_begin D space Mode primitives k) = Some s"
    by (simp add: ctor_loop_def Let_def)
  from loop_bookkeeping [OF this b] i
  show "bookkeeping (ctor_prefix k @ [find_parents]) space Mode (ctor_metric D primitives k) s"
    and "0 < iterations s" by simp_all
qed

lemma ctor_loop_frame:
  assumes "ctor_loop fuel D space Mode primitives k = Some s"
  shows "dendrogram_parent_heights s = []" "chain_offsets s = []" "chain_levels s = []"
    "Mode = MST \<Longrightarrow> dendrogram_parents s = []"
proof -
  from assms have "Boruvka_loop fuel D space Mode (bvh_construct D primitives)
      (ctor_metric D primitives k) (bvh_size D (bvh_construct D primitives))
      (findParents D (bvh_construct D primitives)
        (without_initializing (uninit_int D) (2 * bvh_size D (bvh_construct D primitives) - 1)))
      (ctor_begin D space Mode primitives k) = Some s"
    by (simp add: ctor_loop_def Let_def)
  from loop_frame [OF this]
  show "dendrogram_parent_heights s = []" "chain_offsets s = []" "chain_levels s = []"
    "Mode = MST \<Longrightarrow> dendrogram_parents s = []"
    by (simp_all add: ctor_begin_def begin_frame initial_members_def)
qed

lemma end_submitted:
  "submitted (Boruvka_end D Mode n s) =
     submitted s @
     (if Mode = HDBSCAN
      then [compute_parents_and_reorder_edges (edge_offsets s)
              (deep_copy_subview (sided_parents s) (edges_start s) (edges_end s)
                 (ROOT_CHAIN_VALUE D)),
            assign_dendrogram_parent_heights]
      else [])"
  by (simp add: Boruvka_end_def finish_dendrogram_def assign_root_chain_def
      release_scratch_def Let_def)


section \<open>Two runs on points of a line\<close>

text \<open>Five points one apart, Euclidean metric, MST mode, serial: one iteration.\<close>

definition line5_mst :: "enat MinimumSpanningTree \<times> enat kernel list" where
  "line5_mst =
     (\<lparr>edges = [\<lparr>source = 0, target = 1, weight = 1\<rparr>,
               \<lparr>source = 2, target = 1, weight = 1\<rparr>,
               \<lparr>source = 3, target = 2, weight = 1\<rparr>,
               \<lparr>source = 4, target = 3, weight = 1\<rparr>],
       dendrogram_parents = [], dendrogram_parent_heights = [], chain_offsets = [],
       chain_levels = []\<rparr>,
      [BVH_construction, find_parents, reduce_labels, reset_shared_radii,
       find_component_nearest_neighbors Euclidean, retrieve_edges, update_lower_bounds,
       update_unidirectional_edges, update_labels, finalize_edges])"

lemma run_line5_mst:
  "MinimumSpanningTree_ctor 1 line_Details Serial MST [0, 1, 2, 3, 4] 1 = Some line5_mst"
  by code_simp

text \<open>Two pairs of points, mutual reachability with \<open>k = 2\<close>, HDBSCAN mode: two iterations.\<close>

definition pairs_hdbscan :: "enat MinimumSpanningTree \<times> enat kernel list" where
  "pairs_hdbscan =
     (\<lparr>edges = [\<lparr>source = 0, target = 1, weight = 1\<rparr>,
               \<lparr>source = 2, target = 3, weight = 1\<rparr>,
               \<lparr>source = 1, target = 2, weight = 9\<rparr>],
       dendrogram_parents = [2, 2, - 1, 0, 0, 1, - 9],
       dendrogram_parent_heights = [1, 1, 9], chain_offsets = [0, 2, 3],
       chain_levels = [0, 1]\<rparr>,
      [BVH_construction, compute_core_distances 2, find_parents, reduce_labels,
       reset_shared_radii,
       find_component_nearest_neighbors (MutualReachability [1, 1, 1, 1]),
       retrieve_edges, update_unidirectional_edges, update_bidirectional_edges,
       compute_vertex_parents, update_labels, reduce_labels, reset_shared_radii,
       find_component_nearest_neighbors (MutualReachability [1, 1, 1, 1]),
       retrieve_edges, update_unidirectional_edges, update_bidirectional_edges,
       update_sided_parents 0 2, update_labels,
       compute_parents_and_reorder_edges [0, 2, 3] [0, 2, - 2],
       assign_dendrogram_parent_heights, finalize_edges])"

lemma run_pairs_hdbscan:
  "MinimumSpanningTree_ctor 2 line_Details OtherSpace HDBSCAN [0, 1, 10, 11] 2 =
     Some pairs_hdbscan"
  by code_simp


section \<open>The claims on the driver\<close>

subsection \<open>MST mode leaves the dendrogram views empty\<close>

text \<open>The kernels that are handed a dendrogram view of the struct.\<close>

fun writes_dendrogram :: "'w kernel \<Rightarrow> bool" where
  "writes_dendrogram compute_vertex_parents = True"
| "writes_dendrogram (compute_parents_and_reorder_edges offs sp) = True"
| "writes_dendrogram assign_dendrogram_parent_heights = True"
| "writes_dendrogram _ = False"

lemma mst_rounds_write_no_dendrogram:
  "filter writes_dendrogram (concat (map (round_kernels space MST metric offs) ts)) = []"
  by (induction ts) (simp_all add: round_kernels_def)

text \<open>
  C10. In MST mode the constructed object has \<open>dendrogram_parents\<close>,
  \<open>dendrogram_parent_heights\<close>, \<open>_chain_offsets\<close> and \<open>_chain_levels\<close> of length 0:
  the member initializers make them so, and no kernel that is handed one of them is
  submitted in MST mode.
\<close>

theorem mst_mode_dendrogram_untouched:
  assumes "MinimumSpanningTree_ctor fuel D space MST primitives k = Some (mst, ks)"
  shows "length (dendrogram_parents mst) = 0 \<and> length (dendrogram_parent_heights mst) = 0 \<and>
         length (chain_offsets mst) = 0 \<and> length (chain_levels mst) = 0 \<and>
         filter writes_dendrogram ks = []"
proof -
  from assms obtain s where loop: "ctor_loop fuel D space MST primitives k = Some s"
    and mst: "mst = MinimumSpanningTree.truncate
           ((Boruvka_end D MST (bvh_size D (bvh_construct D primitives)) s)
             \<lparr>edges := finalizeEdges D (bvh_construct D primitives)
                 (edges (Boruvka_end D MST (bvh_size D (bvh_construct D primitives)) s))\<rparr>)"
    and ks: "ks = submitted (Boruvka_end D MST (bvh_size D (bvh_construct D primitives)) s) @
              [finalize_edges]"
    by (rule ctor_SomeD)
  from ctor_loop_frame [OF loop]
  have views: "dendrogram_parents s = []" "dendrogram_parent_heights s = []"
    "chain_offsets s = []" "chain_levels s = []" by simp_all
  from ctor_loop_bookkeeping(1) [OF loop]
  have sub: "submitted s = (ctor_prefix k @ [find_parents]) @
      concat (map (round_kernels space MST (ctor_metric D primitives k) (edge_offsets s))
                [0..<nat (iterations s)])"
    by (simp add: bookkeeping_def)
  have "filter writes_dendrogram (submitted s) = []"
    unfolding sub by (simp add: mst_rounds_write_no_dendrogram ctor_prefix_def)
  then have "filter writes_dendrogram ks = []"
    by (simp add: ks end_submitted)
  moreover have "dendrogram_parents mst = []" "dendrogram_parent_heights mst = []"
    "chain_offsets mst = []" "chain_levels mst = []"
    using views by (simp_all add: mst MinimumSpanningTree.defs Boruvka_end_def release_scratch_def)
  ultimately show ?thesis by simp
qed

theorem mst_mode_dendrogram_untouched_witness:
  "MinimumSpanningTree_ctor 1 line_Details Serial MST [0, 1, 2, 3, 4] 1 = Some line5_mst \<and>
   length (dendrogram_parents (fst line5_mst)) = 0 \<and>
   length (dendrogram_parent_heights (fst line5_mst)) = 0 \<and>
   length (chain_offsets (fst line5_mst)) = 0 \<and>
   length (chain_levels (fst line5_mst)) = 0 \<and>
   filter writes_dendrogram (snd line5_mst) = []"
proof -
  have run: "MinimumSpanningTree_ctor 1 line_Details Serial MST [0, 1, 2, 3, 4] 1 =
               Some (fst line5_mst, snd line5_mst)"
    using run_line5_mst by simp
  from mst_mode_dendrogram_untouched [OF run] run_line5_mst show ?thesis by simp
qed

subsection \<open>The heights are the weights of the edges\<close>

text \<open>
  C9. In HDBSCAN mode \<open>dendrogram_parent_heights\<close> has \<open>N - 1\<close> entries and entry \<open>e\<close> is
  the weight of \<open>edges[e]\<close>. \<open>doBoruvka\<close> writes the heights from the edges as its last
  step; after it the constructor calls \<open>finalizeEdges\<close> on the edges, which is assumed
  to leave the weight of every entry as it is (it is not in the header), as the
  hierarchy is assumed to have one leaf for each point.
\<close>

theorem heights_are_edge_weights:
  assumes "MinimumSpanningTree_ctor fuel D space HDBSCAN primitives k = Some (mst, ks)"
    and "bvh_size D (bvh_construct D primitives) = length primitives"
    and "\<And>es e. e < length primitives - 1 \<Longrightarrow>
           weight (finalizeEdges D (bvh_construct D primitives) es ! e) = weight (es ! e)"
  shows "length (dendrogram_parent_heights mst) = length primitives - 1 \<and>
         (\<forall>e < length primitives - 1. dendrogram_parent_heights mst ! e = weight (edges mst ! e))"
proof -
  let ?n = "bvh_size D (bvh_construct D primitives)"
  from assms(1) obtain s where
    mst: "mst = MinimumSpanningTree.truncate
           ((Boruvka_end D HDBSCAN ?n s)
             \<lparr>edges := finalizeEdges D (bvh_construct D primitives)
                 (edges (Boruvka_end D HDBSCAN ?n s))\<rparr>)"
    by (rule ctor_SomeD)
  let ?r = "Boruvka_end D HDBSCAN ?n s"
  have h: "dendrogram_parent_heights ?r = map (\<lambda>e. weight (edges ?r ! e)) [0..<?n - 1]"
    by (simp add: Boruvka_end_def finish_dendrogram_def Let_def)
  have hm: "dendrogram_parent_heights mst = dendrogram_parent_heights ?r"
    and em: "edges mst = finalizeEdges D (bvh_construct D primitives) (edges ?r)"
    by (simp_all add: mst MinimumSpanningTree.defs)
  show ?thesis
    unfolding hm em h using assms(2,3) by simp
qed

theorem heights_are_edge_weights_witness:
  "MinimumSpanningTree_ctor 2 line_Details OtherSpace HDBSCAN [0, 1, 10, 11] 2 =
     Some pairs_hdbscan \<and>
   dendrogram_parent_heights (fst pairs_hdbscan) = [1, 1, 9] \<and>
   map weight (edges (fst pairs_hdbscan)) = [1, 1, 9]"
proof -
  have run: "MinimumSpanningTree_ctor 2 line_Details OtherSpace HDBSCAN [0, 1, 10, 11] 2 =
               Some (fst pairs_hdbscan, snd pairs_hdbscan)"
    using run_pairs_hdbscan by simp
  have size: "bvh_size line_Details (bvh_construct line_Details [0, 1, 10, 11]) =
                length [0, 1, 10, 11 :: int]"
    by (simp add: line_Details_def Details_spec_def)
  have keep: "weight (finalizeEdges line_Details (bvh_construct line_Details [0, 1, 10, 11]) es ! e)
                = weight (es ! e)"
    if "e < length [0, 1, 10, 11 :: int] - 1" for es :: "enat WeightedEdge list" and e
    using that by (simp add: line_Details_def Details_spec_def finalizeEdges_spec_def)
  from heights_are_edge_weights [OF run size keep]
  have "length (dendrogram_parent_heights (fst pairs_hdbscan)) = 3" by simp
  then show ?thesis using run_pairs_hdbscan by (simp add: pairs_hdbscan_def)
qed


subsection \<open>The work the constructor submits\<close>

lemma deep_copy_subview_length [simp]:
  "length (deep_copy_subview view lo hi v) = length view"
  by (simp add: deep_copy_subview_def)

lemma deep_copy_subview_nth:
  "e < length view \<Longrightarrow>
     deep_copy_subview view lo hi v ! e = (if lo \<le> int e \<and> int e < hi then v else view ! e)"
  by (simp add: deep_copy_subview_def)

lemma rounds_count_update_labels:
  "length (filter (\<lambda>x. x = update_labels)
     (concat (map (round_kernels space Mode metric offs) ts))) = length ts"
  by (induction ts) (simp_all add: round_kernels_def)



lemma rounds_dendrogram_kernels:
  "filter dendrogram_kernel (concat (map (round_kernels space HDBSCAN metric offs) ts)) =
     map (\<lambda>t. if 1 \<le> t then update_sided_parents (offs ! (t - 1)) (offs ! t)
              else compute_vertex_parents) ts"
  by (induction ts) (simp_all add: round_kernels_def)

text \<open>
  All the work of a constructor call that returns: the first kernels, the iterations,
  the final pass of HDBSCAN mode with the offsets and the sided parents it is handed,
  and the last kernel on the edges.
\<close>

lemma ctor_submitted:
  assumes "MinimumSpanningTree_ctor fuel D space Mode primitives k = Some (mst, ks)"
  obtains offs T sp0 where "1 \<le> T" and "length offs = Suc T"
    and "ks = ctor_prefix k @ [find_parents] @
              concat (map (round_kernels space Mode (ctor_metric D primitives k) offs) [0..<T]) @
              (if Mode = HDBSCAN
               then [compute_parents_and_reorder_edges offs
                       (deep_copy_subview sp0 (offs ! (T - 1)) (offs ! T) (ROOT_CHAIN_VALUE D)),
                     assign_dendrogram_parent_heights]
               else []) @
              [finalize_edges]"
proof -
  from assms obtain s where loop: "ctor_loop fuel D space Mode primitives k = Some s"
    and ks: "ks = submitted (Boruvka_end D Mode (bvh_size D (bvh_construct D primitives)) s) @
              [finalize_edges]"
    by (rule ctor_SomeD)
  let ?T = "nat (iterations s)"
  from ctor_loop_bookkeeping [OF loop]
  have b: "bookkeeping (ctor_prefix k @ [find_parents]) space Mode (ctor_metric D primitives k) s"
    and pos: "0 < iterations s" by simp_all
  from b have len: "length (edge_offsets s) = Suc ?T"
    and e_end: "edges_end s = edge_offsets s ! ?T"
    and e_start: "edges_start s = edge_offsets s ! (?T - 1)"
    and sub: "submitted s = (ctor_prefix k @ [find_parents]) @
        concat (map (round_kernels space Mode (ctor_metric D primitives k) (edge_offsets s))
                  [0..<?T])"
    using pos by (simp_all add: bookkeeping_def)
  have "1 \<le> ?T" using pos by simp
  moreover note len
  moreover have "ks = ctor_prefix k @ [find_parents] @
      concat (map (round_kernels space Mode (ctor_metric D primitives k) (edge_offsets s))
                [0..<?T]) @
      (if Mode = HDBSCAN
       then [compute_parents_and_reorder_edges (edge_offsets s)
               (deep_copy_subview (sided_parents s) (edge_offsets s ! (?T - 1))
                  (edge_offsets s ! ?T) (ROOT_CHAIN_VALUE D)),
             assign_dendrogram_parent_heights]
       else []) @
      [finalize_edges]"
    by (simp add: ks end_submitted sub e_end e_start)
  ultimately show thesis by (rule that)
qed

subsection \<open>The metric follows \<open>k\<close>\<close>




subsection \<open>No validation of the input\<close>




subsection \<open>Vertex parents in the first iteration, sided parents in the later ones\<close>




subsection \<open>The edges of the last iteration go to the root chain\<close>

text \<open>
  C8. In HDBSCAN mode, after the loop, the sided parents handed to
  \<open>computeParentsAndReorderEdges\<close> hold \<open>ROOT_CHAIN_VALUE\<close> in every slot of the last
  iteration: the slots from the edge count before that iteration to the edge count after
  it, the last two of the offsets (one offset for the start and one for each iteration).
  What the callee makes of the mark is not in the header.
\<close>

theorem last_iteration_on_root_chain:
  assumes "MinimumSpanningTree_ctor fuel D space HDBSCAN primitives k = Some (mst, ks)"
  shows "\<exists>pre offs sp.
           ks = pre @ [compute_parents_and_reorder_edges offs sp,
                       assign_dendrogram_parent_heights, finalize_edges] \<and>
           length offs = Suc (length (filter (\<lambda>x. x = update_labels) pre)) \<and>
           2 \<le> length offs \<and>
           (\<forall>e < length sp.
              offs ! (length offs - 2) \<le> int e \<and> int e < offs ! (length offs - 1) \<longrightarrow>
              sp ! e = ROOT_CHAIN_VALUE D)"
proof -
  let ?m = "ctor_metric D primitives k"
  from assms obtain offs T sp0 where T: "1 \<le> T" and len: "length offs = Suc T"
    and ks: "ks = ctor_prefix k @ [find_parents] @
              concat (map (round_kernels space HDBSCAN ?m offs) [0..<T]) @
              (if HDBSCAN = HDBSCAN
               then [compute_parents_and_reorder_edges offs
                       (deep_copy_subview sp0 (offs ! (T - 1)) (offs ! T) (ROOT_CHAIN_VALUE D)),
                     assign_dendrogram_parent_heights]
               else []) @
              [finalize_edges]"
    by (rule ctor_submitted)
  define pre where "pre = ctor_prefix k @ [find_parents] @
              concat (map (round_kernels space HDBSCAN ?m offs) [0..<T])"
  define sp where "sp = deep_copy_subview sp0 (offs ! (T - 1)) (offs ! T) (ROOT_CHAIN_VALUE D)"
  have a: "ks = pre @ [compute_parents_and_reorder_edges offs sp,
                       assign_dendrogram_parent_heights, finalize_edges]"
    by (simp add: ks pre_def sp_def)
  have "length (filter (\<lambda>x. x = update_labels) pre) = T"
    by (simp add: pre_def rounds_count_update_labels ctor_prefix_def)
  then have b: "length offs = Suc (length (filter (\<lambda>x. x = update_labels) pre))"
    using len by simp
  have c: "2 \<le> length offs" using T len by simp
  have idx: "length offs - 2 = T - 1" "length offs - 1 = T" using len by simp_all
  have d: "(\<forall>e < length sp.
              offs ! (length offs - 2) \<le> int e \<and> int e < offs ! (length offs - 1) \<longrightarrow>
              sp ! e = ROOT_CHAIN_VALUE D)"
    unfolding idx by (simp add: sp_def deep_copy_subview_nth)
  from a b c d show ?thesis by blast
qed

theorem last_iteration_on_root_chain_witness:
  "MinimumSpanningTree_ctor 2 line_Details OtherSpace HDBSCAN [0, 1, 10, 11] 2 =
     Some pairs_hdbscan \<and>
   (\<exists>pre offs sp.
      snd pairs_hdbscan = pre @ [compute_parents_and_reorder_edges offs sp,
                       assign_dendrogram_parent_heights, finalize_edges] \<and>
      length offs = Suc (length (filter (\<lambda>x. x = update_labels) pre)) \<and>
      2 \<le> length offs \<and>
      (\<forall>e < length sp.
         offs ! (length offs - 2) \<le> int e \<and> int e < offs ! (length offs - 1) \<longrightarrow>
         sp ! e = ROOT_CHAIN_VALUE line_Details)) \<and>
   ROOT_CHAIN_VALUE line_Details = - 2 \<and>
   compute_parents_and_reorder_edges [0, 2, 3] [0, 2, - 2] \<in> set (snd pairs_hdbscan)"
proof -
  have run: "MinimumSpanningTree_ctor 2 line_Details OtherSpace HDBSCAN [0, 1, 10, 11] 2 =
               Some (fst pairs_hdbscan, snd pairs_hdbscan)"
    using run_pairs_hdbscan by simp
  have "ROOT_CHAIN_VALUE line_Details = - 2"
    by (simp add: line_Details_def Details_spec_def)
  moreover have "compute_parents_and_reorder_edges [0, 2, 3] [0, 2, - 2] \<in> set (snd pairs_hdbscan)"
    by (simp add: pairs_hdbscan_def)
  ultimately show ?thesis
    using last_iteration_on_root_chain [OF run] run_pairs_hdbscan by blast
qed

section \<open>The construction with the modelled callees\<close>

text \<open>
  From here on the callees are the modelled ones, \<open>Details_spec\<close>, and the properties are
  those of the algorithm: what the search finds, how the components merge, how long the
  loop runs.
\<close>

subsection \<open>The search finds the least edge out of every component\<close>

lemma combine_edge_key: "edge_key (combine_edge x e) = min (edge_key x) (edge_key e)"
  by (auto simp: combine_edge_def min_def)

lemma fold_combine_edge_cases: "fold combine_edge xs e0 = e0 \<or> fold combine_edge xs e0 \<in> set xs"
proof (induction xs arbitrary: e0)
  case Nil
  then show ?case by simp
next
  case (Cons x xs)
  from Cons.IH [of "combine_edge x e0"] show ?case
    by (auto simp: combine_edge_def split: if_splits)
qed

lemma fold_combine_edge_le0: "edge_key (fold combine_edge xs e0) \<le> edge_key e0"
proof (induction xs arbitrary: e0)
  case Nil
  then show ?case by simp
next
  case (Cons x xs)
  have "edge_key (fold combine_edge xs (combine_edge x e0)) \<le> edge_key (combine_edge x e0)"
    by (rule Cons.IH)
  also have "\<dots> \<le> edge_key e0" by (simp add: combine_edge_key)
  finally show ?case by simp
qed

lemma fold_combine_edge_le: "x \<in> set xs \<Longrightarrow> edge_key (fold combine_edge xs e0) \<le> edge_key x"
proof (induction xs arbitrary: e0)
  case Nil
  then show ?case by simp
next
  case (Cons y xs)
  show ?case
  proof (cases "x = y")
    case True
    have "edge_key (fold combine_edge xs (combine_edge y e0)) \<le> edge_key (combine_edge y e0)"
      by (rule fold_combine_edge_le0)
    also have "\<dots> \<le> edge_key y" by (simp add: combine_edge_key)
    finally show ?thesis using True by simp
  next
    case False
    with Cons.prems have "x \<in> set xs" by simp
    from Cons.IH [OF this] show ?thesis by simp
  qed
qed

lemma fold_combine_edge_keep:
  "(\<And>x. x \<in> set xs \<Longrightarrow> \<not> edge_key x < edge_key e0) \<Longrightarrow> fold combine_edge xs e0 = e0"
  by (induction xs) (simp_all add: combine_edge_def)


definition good_metric ::
  "('p \<Rightarrow> 'p \<Rightarrow> 'w::{linorder,zero}) \<Rightarrow> 'w \<Rightarrow> 'p list \<Rightarrow> 'w Metric \<Rightarrow> bool" where
  "good_metric d infty bvh m =
     (\<forall>i<length bvh. \<forall>j<length bvh.
        metric_distance d bvh m i j = metric_distance d bvh m j i \<and>
        metric_distance d bvh m i j < infty \<and> 0 \<le> metric_distance d bvh m i j)"

definition labels_ok :: "nat \<Rightarrow> int list \<Rightarrow> bool" where
  "labels_ok n lab =
     (n \<le> length lab \<and>
      (\<forall>i<n. 0 \<le> lab ! i \<and> nat (lab ! i) < n \<and> lab ! nat (lab ! i) = lab ! i))"

definition valid_bounds ::
  "('p \<Rightarrow> 'p \<Rightarrow> 'w::linorder) \<Rightarrow> 'p list \<Rightarrow> 'w Metric \<Rightarrow> int list \<Rightarrow> 'w list \<Rightarrow> bool" where
  "valid_bounds d bvh m lab lbs =
     (\<forall>i<length lbs. \<forall>j<length bvh.
        lab ! j \<noteq> lab ! i \<longrightarrow> lbs ! i \<le> metric_distance d bvh m i j)"

definition outgoing ::
  "('p \<Rightarrow> 'p \<Rightarrow> 'w::linorder) \<Rightarrow> 'p list \<Rightarrow> 'w Metric \<Rightarrow> int list \<Rightarrow> nat
    \<Rightarrow> 'w DirectedEdge list" where
  "outgoing d bvh m lab c =
     concat (map (\<lambda>i. if lab ! i = int c then leaf_candidates d bvh m lab i else [])
               [0..<length bvh])"

definition winner ::
  "('p \<Rightarrow> 'p \<Rightarrow> 'w::linorder) \<Rightarrow> 'w \<Rightarrow> 'p list \<Rightarrow> 'w Metric \<Rightarrow> int list \<Rightarrow> nat
    \<Rightarrow> 'w DirectedEdge" where
  "winner d infty bvh m lab c =
     fold combine_edge (outgoing d bvh m lab c)
       \<lparr>de_source = - 1, de_target = - 1, de_weight = infty\<rparr>"

lemma leaf_candidates_iff:
  "e \<in> set (leaf_candidates d bvh m lab i) \<longleftrightarrow>
     (\<exists>j<length bvh. lab ! j \<noteq> lab ! i \<and>
        e = \<lparr>de_source = int i, de_target = int j, de_weight = metric_distance d bvh m i j\<rparr>)"
  by (auto simp: leaf_candidates_def)

lemma outgoing_iff:
  "e \<in> set (outgoing d bvh m lab c) \<longleftrightarrow>
     (\<exists>i<length bvh. \<exists>j<length bvh. lab ! i = int c \<and> lab ! j \<noteq> int c \<and>
        e = \<lparr>de_source = int i, de_target = int j, de_weight = metric_distance d bvh m i j\<rparr>)"
  by (auto simp: outgoing_def leaf_candidates_iff)

lemma edge_key_weight_le:
  fixes a b :: "'w::linorder DirectedEdge"
  shows "edge_key a \<le> edge_key b \<Longrightarrow> de_weight a \<le> de_weight b"
  by (auto simp: edge_key_def less_eq_prod_def)

lemma edge_key_weight_less:
  fixes a b :: "'w::linorder DirectedEdge"
  shows "de_weight a < de_weight b \<Longrightarrow> edge_key a < edge_key b"
  by (auto simp: edge_key_def less_prod_def)

text \<open>One leaf of the search: with valid lower bounds the skip changes nothing.\<close>

lemma search_leaf_effect:
  fixes st :: "'w::linorder search" and shared :: bool
  assumes i: "i < length bvh"
    and c: "nat (lab ! i) < length (s_out_edges st)"
    and lens: "length (s_weights st) = length (s_out_edges st)"
    and inv: "\<forall>c<length (s_out_edges st). s_weights st ! c = de_weight (s_out_edges st ! c)"
    and valid: "valid_bounds d bvh m lab (s_lower_bounds st)"
  defines "st' \<equiv> search_leaf d bvh m lab shared i st"
  defines "best \<equiv> fold combine_edge (leaf_candidates d bvh m lab i) (s_out_edges st ! nat (lab ! i))"
  shows "s_out_edges st' = (s_out_edges st)[nat (lab ! i) := best]"
    and "s_weights st' = (s_weights st)[nat (lab ! i) := de_weight best]"
    and "valid_bounds d bvh m lab (s_lower_bounds st')"
    and "length (s_lower_bounds st') = length (s_lower_bounds st)"
proof -
  let ?c = "nat (lab ! i)"
  let ?cur = "s_out_edges st ! ?c"
  have w: "s_weights st ! ?c = de_weight ?cur" using inv c by simp
  have best_le: "edge_key best \<le> edge_key ?cur"
    unfolding best_def by (rule fold_combine_edge_le0)
  then have wbest: "de_weight best \<le> de_weight ?cur" by (rule edge_key_weight_le)
  have "s_out_edges st' = (s_out_edges st)[?c := best] \<and>
        s_weights st' = (s_weights st)[?c := de_weight best] \<and>
        valid_bounds d bvh m lab (s_lower_bounds st') \<and>
        length (s_lower_bounds st') = length (s_lower_bounds st)"
  proof (cases "i < length (s_lower_bounds st) \<and> s_weights st ! ?c < s_lower_bounds st ! i")
    case True
    then have skip: "st' = st" by (simp add: st'_def search_leaf_def)
    have "\<not> edge_key x < edge_key ?cur" if "x \<in> set (leaf_candidates d bvh m lab i)" for x
    proof -
      from that obtain j where j: "j < length bvh" "lab ! j \<noteq> lab ! i"
        and x: "x = \<lparr>de_source = int i, de_target = int j,
                     de_weight = metric_distance d bvh m i j\<rparr>"
        by (auto simp: leaf_candidates_iff)
      from valid True j have "s_lower_bounds st ! i \<le> metric_distance d bvh m i j"
        by (simp add: valid_bounds_def)
      moreover from True w have "de_weight ?cur < s_lower_bounds st ! i" by simp
      ultimately have "de_weight ?cur < de_weight x" by (simp add: x)
      then have "edge_key ?cur < edge_key x" by (rule edge_key_weight_less)
      then show ?thesis by simp
    qed
    then have b: "best = ?cur" unfolding best_def by (rule fold_combine_edge_keep)
    have "s_out_edges st' = (s_out_edges st)[?c := best]" by (simp add: skip b)
    moreover have "s_weights st' = (s_weights st)[?c := de_weight best]"
      by (simp add: skip b flip: w)
    moreover have "valid_bounds d bvh m lab (s_lower_bounds st')" using valid by (simp add: skip)
    moreover have "length (s_lower_bounds st') = length (s_lower_bounds st)" by (simp add: skip)
    ultimately show ?thesis by simp
  next
    case False
    then have st': "s_out_edges st' = (s_out_edges st)[?c := best]"
      "s_weights st' = (s_weights st)[?c := min (s_weights st ! ?c) (de_weight best)]"
      "s_lower_bounds st' = (s_lower_bounds st)[i := min (s_weights st ! ?c) (de_weight best)]"
      by (auto simp: st'_def search_leaf_def Let_def best_def)
    have m: "min (s_weights st ! ?c) (de_weight best) = de_weight best"
      using w wbest by (simp add: min_def)
    have "s_out_edges st' = (s_out_edges st)[?c := best]" by (simp add: st')
    moreover have "s_weights st' = (s_weights st)[?c := de_weight best]" by (simp add: st' m)
    moreover have "length (s_lower_bounds st') = length (s_lower_bounds st)" by (simp add: st')
    moreover have "valid_bounds d bvh m lab (s_lower_bounds st')"
      unfolding valid_bounds_def
    proof (intro allI impI)
      fix a j
      assume a: "a < length (s_lower_bounds st')" and j: "j < length bvh"
        and ne: "lab ! j \<noteq> lab ! a"
      show "s_lower_bounds st' ! a \<le> metric_distance d bvh m a j"
      proof (cases "a = i")
        case True
        have "\<lparr>de_source = int i, de_target = int j, de_weight = metric_distance d bvh m i j\<rparr>
                \<in> set (leaf_candidates d bvh m lab i)"
          using j ne True by (auto simp: leaf_candidates_iff)
        then have "edge_key best \<le> edge_key \<lparr>de_source = int i, de_target = int j,
                      de_weight = metric_distance d bvh m i j\<rparr>"
          unfolding best_def by (rule fold_combine_edge_le)
        then have "de_weight best \<le> metric_distance d bvh m i j"
          by (auto dest: edge_key_weight_le)
        then show ?thesis using a True by (simp add: st' m)
      next
        case False
        then show ?thesis using a j ne valid by (simp add: st' valid_bounds_def)
      qed
    qed
    ultimately show ?thesis by simp
  qed
  then show "s_out_edges st' = (s_out_edges st)[?c := best]"
    and "s_weights st' = (s_weights st)[?c := de_weight best]"
    and "valid_bounds d bvh m lab (s_lower_bounds st')"
    and "length (s_lower_bounds st') = length (s_lower_bounds st)"
    by simp_all
qed


lemma search_fold:
  fixes st :: "'w::linorder search" and shared :: bool
  assumes "\<forall>i\<in>set leaves. i < length bvh \<and> nat (lab ! i) < length (s_out_edges st)"
    and "length (s_weights st) = length (s_out_edges st)"
    and "\<forall>c<length (s_out_edges st). s_weights st ! c = de_weight (s_out_edges st ! c)"
    and "valid_bounds d bvh m lab (s_lower_bounds st)"
  shows "length (s_out_edges (fold (search_leaf d bvh m lab shared) leaves st)) =
           length (s_out_edges st) \<and>
         length (s_weights (fold (search_leaf d bvh m lab shared) leaves st)) =
           length (s_out_edges st) \<and>
         (\<forall>c<length (s_out_edges st).
            s_weights (fold (search_leaf d bvh m lab shared) leaves st) ! c =
            de_weight (s_out_edges (fold (search_leaf d bvh m lab shared) leaves st) ! c)) \<and>
         valid_bounds d bvh m lab
           (s_lower_bounds (fold (search_leaf d bvh m lab shared) leaves st)) \<and>
         length (s_lower_bounds (fold (search_leaf d bvh m lab shared) leaves st)) =
           length (s_lower_bounds st) \<and>
         (\<forall>c<length (s_out_edges st).
            s_out_edges (fold (search_leaf d bvh m lab shared) leaves st) ! c =
            fold combine_edge
              (concat (map (\<lambda>i. if nat (lab ! i) = c then leaf_candidates d bvh m lab i else [])
                         leaves))
              (s_out_edges st ! c))"
  using assms
proof (induction leaves arbitrary: st)
  case Nil
  then show ?case by simp
next
  case (Cons i leaves)
  let ?st1 = "search_leaf d bvh m lab shared i st"
  let ?c = "nat (lab ! i)"
  let ?best = "fold combine_edge (leaf_candidates d bvh m lab i) (s_out_edges st ! ?c)"
  from Cons.prems(1) have i: "i < length bvh" and c: "?c < length (s_out_edges st)" by simp_all
  note eff = search_leaf_effect [OF i c Cons.prems(2) Cons.prems(3) Cons.prems(4), of shared]
  have oe1: "s_out_edges ?st1 = (s_out_edges st)[?c := ?best]" by (rule eff(1))
  have w1: "s_weights ?st1 = (s_weights st)[?c := de_weight ?best]" by (rule eff(2))
  have len1: "length (s_out_edges ?st1) = length (s_out_edges st)" by (simp add: oe1)
  have p1: "\<forall>i\<in>set leaves. i < length bvh \<and> nat (lab ! i) < length (s_out_edges ?st1)"
    using Cons.prems(1) by (simp add: len1)
  have p2: "length (s_weights ?st1) = length (s_out_edges ?st1)"
    using Cons.prems(2) by (simp add: oe1 w1)
  have p3: "\<forall>c<length (s_out_edges ?st1). s_weights ?st1 ! c = de_weight (s_out_edges ?st1 ! c)"
  proof (intro allI impI)
    fix c' assume "c' < length (s_out_edges ?st1)"
    then have c': "c' < length (s_out_edges st)" "c' < length (s_weights st)"
      using Cons.prems(2) by (simp_all add: len1)
    show "s_weights ?st1 ! c' = de_weight (s_out_edges ?st1 ! c')"
    proof (cases "c' = ?c")
      case True
      then show ?thesis using c' by (simp add: oe1 w1)
    next
      case False
      then show ?thesis using c' Cons.prems(3) by (simp add: oe1 w1)
    qed
  qed
  have p4: "valid_bounds d bvh m lab (s_lower_bounds ?st1)" by (rule eff(3))
  note IH = Cons.IH [OF p1 p2 p3 p4]
  have step: "s_out_edges ?st1 ! c' =
      fold combine_edge (if ?c = c' then leaf_candidates d bvh m lab i else [])
        (s_out_edges st ! c')" if "c' < length (s_out_edges st)" for c'
    using that by (simp add: oe1 nth_list_update)
  show ?case
    using IH by (simp add: len1 eff(4) step)
qed

text \<open>The search, under the conditions in which the driver calls it.\<close>

lemma FindComponentNearestNeighbors_spec_winner:
  fixes ws :: "'w::linorder list" and shared :: bool
  assumes lab: "labels_ok (length bvh) lab"
    and oes: "out_edges = replicate (length bvh) \<lparr>de_source = - 1, de_target = - 1, de_weight = infty\<rparr>"
    and ws: "ws = replicate (length bvh) infty"
    and valid: "valid_bounds d bvh m lab lbs"
  shows "fst (snd (FindComponentNearestNeighbors_spec d bvh lab ws out_edges m rad lbs shared)) =
           map (winner d infty bvh m lab) [0..<length bvh]"
    and "valid_bounds d bvh m lab
           (snd (snd (snd (FindComponentNearestNeighbors_spec d bvh lab ws out_edges m rad lbs shared))))"
    and "length (snd (snd (snd (FindComponentNearestNeighbors_spec d bvh lab ws out_edges m rad lbs shared))))
           = length lbs"
proof -
  let ?st = "\<lparr>s_weights = ws, s_out_edges = out_edges, s_radii = rad, s_lower_bounds = lbs\<rparr>"
  define r where "r = fold (search_leaf d bvh m lab shared) [0..<length bvh] ?st"
  have a1: "\<forall>i\<in>set [0..<length bvh]. i < length bvh \<and> nat (lab ! i) < length (s_out_edges ?st)"
    using lab by (simp add: labels_ok_def oes)
  have a2: "length (s_weights ?st) = length (s_out_edges ?st)" by (simp add: oes ws)
  have a3: "\<forall>c<length (s_out_edges ?st). s_weights ?st ! c = de_weight (s_out_edges ?st ! c)"
    by (simp add: oes ws)
  have a4: "valid_bounds d bvh m lab (s_lower_bounds ?st)" using valid by simp
  from search_fold [OF a1 a2 a3 a4, of shared]
  have r_len: "length (s_out_edges r) = length bvh"
    and r_valid: "valid_bounds d bvh m lab (s_lower_bounds r)"
    and r_lbs: "length (s_lower_bounds r) = length lbs"
    and r_nth: "\<forall>c<length bvh. s_out_edges r ! c =
            fold combine_edge
              (concat (map (\<lambda>i. if nat (lab ! i) = c then leaf_candidates d bvh m lab i else [])
                         [0..<length bvh]))
              \<lparr>de_source = - 1, de_target = - 1, de_weight = infty\<rparr>"
    unfolding r_def [symmetric] by (simp_all add: oes)
  have same: "(if nat (lab ! i) = c then leaf_candidates d bvh m lab i else []) =
              (if lab ! i = int c then leaf_candidates d bvh m lab i else [])"
    if "i \<in> set [0..<length bvh]" for i c
    using that lab by (auto simp: labels_ok_def)
  have "s_out_edges r ! c = winner d infty bvh m lab c" if "c < length bvh" for c
  proof -
    have "map (\<lambda>i. if nat (lab ! i) = c then leaf_candidates d bvh m lab i else [])
                 [0..<length bvh] =
               map (\<lambda>i. if lab ! i = int c then leaf_candidates d bvh m lab i else [])
                 [0..<length bvh]"
      by (rule map_cong [OF refl same])
    then have "fold combine_edge
              (concat (map (\<lambda>i. if nat (lab ! i) = c then leaf_candidates d bvh m lab i else [])
                         [0..<length bvh]))
              \<lparr>de_source = - 1, de_target = - 1, de_weight = infty\<rparr> =
            winner d infty bvh m lab c"
      unfolding winner_def outgoing_def by (rule arg_cong [where f = "\<lambda>xs. fold combine_edge (concat xs) _"])
    with r_nth that show ?thesis by simp
  qed
  then have "s_out_edges r = map (winner d infty bvh m lab) [0..<length bvh]"
    using r_len by (intro nth_equalityI) simp_all
  then show "fst (snd (FindComponentNearestNeighbors_spec d bvh lab ws out_edges m rad lbs shared)) =
           map (winner d infty bvh m lab) [0..<length bvh]"
    by (simp add: FindComponentNearestNeighbors_spec_def Let_def r_def)
  show "valid_bounds d bvh m lab
           (snd (snd (snd (FindComponentNearestNeighbors_spec d bvh lab ws out_edges m rad lbs shared))))"
    using r_valid by (simp add: FindComponentNearestNeighbors_spec_def Let_def r_def)
  show "length (snd (snd (snd (FindComponentNearestNeighbors_spec d bvh lab ws out_edges m rad lbs shared))))
           = length lbs"
    using r_lbs by (simp add: FindComponentNearestNeighbors_spec_def Let_def r_def)
qed

definition comps :: "nat \<Rightarrow> int list \<Rightarrow> nat set" where
  "comps n lab = {c. c < n \<and> lab ! c = int c}"

lemma comps_finite [simp]: "finite (comps n lab)"
  by (simp add: comps_def)

lemma comps_label: "labels_ok n lab \<Longrightarrow> i < n \<Longrightarrow> nat (lab ! i) \<in> comps n lab"
  by (simp add: labels_ok_def comps_def)

lemma comps_image: "labels_ok n lab \<Longrightarrow> comps n lab = (\<lambda>i. nat (lab ! i)) ` {..<n}"
  by (force simp: labels_ok_def comps_def image_iff)

text \<open>What the union step needs of the winners.\<close>

definition src :: "'w DirectedEdge list \<Rightarrow> nat \<Rightarrow> nat" where
  "src oes c = nat (de_source (oes ! c))"

definition tgt :: "'w DirectedEdge list \<Rightarrow> nat \<Rightarrow> nat" where
  "tgt oes c = nat (de_target (oes ! c))"

definition picks :: "nat \<Rightarrow> int list \<Rightarrow> 'w::linorder DirectedEdge list \<Rightarrow> bool" where
  "picks n lab oes =
     (\<forall>c\<in>comps n lab.
        0 \<le> de_source (oes ! c) \<and> 0 \<le> de_target (oes ! c) \<and>
        src oes c < n \<and> tgt oes c < n \<and>
        lab ! src oes c = int c \<and> lab ! tgt oes c \<noteq> int c \<and>
        edge_key (oes ! next_component lab oes c) \<le> edge_key (oes ! c) \<and>
        (mutual_pair oes c (next_component lab oes c) \<longleftrightarrow>
           edge_key (oes ! next_component lab oes c) = edge_key (oes ! c)))"

lemma winner_none:
  assumes "\<forall>i<length bvh. \<forall>j<length bvh. \<not> (lab ! i = int c \<and> lab ! j \<noteq> int c)"
  shows "winner d infty bvh m lab c = \<lparr>de_source = - 1, de_target = - 1, de_weight = infty\<rparr>"
proof -
  have "e \<notin> set (outgoing d bvh m lab c)" for e
    using assms by (auto simp: outgoing_iff)
  then have "outgoing d bvh m lab c = []"
    by (cases "outgoing d bvh m lab c") auto
  then show ?thesis by (simp add: winner_def)
qed

lemma winner_some:
  fixes d :: "'p \<Rightarrow> 'p \<Rightarrow> 'w::{linorder,zero}"
  assumes good: "good_metric d infty bvh m"
    and i: "i < length bvh" "lab ! i = int c"
    and j: "j < length bvh" "lab ! j \<noteq> int c"
  shows "\<exists>s t. s < length bvh \<and> t < length bvh \<and> lab ! s = int c \<and> lab ! t \<noteq> int c \<and>
           winner d infty bvh m lab c =
             \<lparr>de_source = int s, de_target = int t,
                de_weight = metric_distance d bvh m s t\<rparr> \<and>
           (\<forall>e\<in>set (outgoing d bvh m lab c).
              edge_key (winner d infty bvh m lab c) \<le> edge_key e)"
proof -
  let ?e0 = "\<lparr>de_source = int i, de_target = int j, de_weight = metric_distance d bvh m i j\<rparr>"
  let ?init = "\<lparr>de_source = - 1, de_target = - 1, de_weight = infty\<rparr> :: 'w DirectedEdge"
  have e0: "?e0 \<in> set (outgoing d bvh m lab c)"
    using i j by (auto simp: outgoing_iff)
  have le: "edge_key (winner d infty bvh m lab c) \<le> edge_key e"
    if "e \<in> set (outgoing d bvh m lab c)" for e
    unfolding winner_def using that by (rule fold_combine_edge_le)
  have "metric_distance d bvh m i j < infty"
    using good i j by (simp add: good_metric_def)
  then have "edge_key ?e0 < edge_key ?init"
    by (intro edge_key_weight_less) simp
  with le [OF e0] have "edge_key (winner d infty bvh m lab c) < edge_key ?init" by simp
  then have "winner d infty bvh m lab c \<noteq> ?init" by auto
  with fold_combine_edge_cases [of "outgoing d bvh m lab c" ?init]
  have "winner d infty bvh m lab c \<in> set (outgoing d bvh m lab c)"
    by (simp add: winner_def)
  then obtain s t where "s < length bvh" "t < length bvh" "lab ! s = int c" "lab ! t \<noteq> int c"
    "winner d infty bvh m lab c =
       \<lparr>de_source = int s, de_target = int t, de_weight = metric_distance d bvh m s t\<rparr>"
    by (auto simp: outgoing_iff)
  then show ?thesis using le by blast
qed


lemma edge_key_reverse:
  "edge_key \<lparr>de_source = a, de_target = b, de_weight = w\<rparr> =
   edge_key \<lparr>de_source = b, de_target = a, de_weight = w\<rparr>"
  by (simp add: edge_key_def min.commute max.commute)

lemma edge_key_same_ends:
  assumes "edge_key \<lparr>de_source = a, de_target = b, de_weight = w\<rparr> =
           edge_key \<lparr>de_source = a', de_target = b', de_weight = w'\<rparr>"
    and "a' \<noteq> a"
  shows "a' = b \<and> b' = a"
  using assms by (auto simp: edge_key_def min_def max_def split: if_splits)

lemma winners_pick:
  fixes d :: "'p \<Rightarrow> 'p \<Rightarrow> 'w::{linorder,zero}"
  assumes good: "good_metric d infty bvh m"
    and lab: "labels_ok (length bvh) lab"
    and several: "\<exists>i<length bvh. \<exists>j<length bvh. lab ! i \<noteq> lab ! j"
  shows "picks (length bvh) lab (map (winner d infty bvh m lab) [0..<length bvh])"
  unfolding picks_def
proof
  let ?n = "length bvh"
  let ?W = "winner d infty bvh m lab"
  let ?oes = "map ?W [0..<?n]"
  fix c assume "c \<in> comps ?n lab"
  then have c: "c < ?n" "lab ! c = int c" by (simp_all add: comps_def)
  from several obtain i0 j0 where "i0 < ?n" "j0 < ?n" "lab ! i0 \<noteq> lab ! j0" by blast
  then obtain j where j: "j < ?n" "lab ! j \<noteq> int c"
    by (cases "lab ! i0 = int c") auto
  from winner_some [OF good c j] obtain s t where s: "s < ?n" "lab ! s = int c"
    and t: "t < ?n" "lab ! t \<noteq> int c"
    and W: "?W c = \<lparr>de_source = int s, de_target = int t,
                    de_weight = metric_distance d bvh m s t\<rparr>"
    by blast
  let ?c' = "nat (lab ! t)"
  have c': "?c' < ?n" "lab ! ?c' = int ?c'" "lab ! t = int ?c'" "?c' \<noteq> c"
    using lab t by (auto simp: labels_ok_def)
  have nxt: "next_component lab ?oes c = ?c'"
    using c by (simp add: next_component_def W)
  have ne: "lab ! s \<noteq> int ?c'" using c' s by simp
  from winner_some [OF good t(1) c'(3) s(1) ne]
  obtain s' t' where s': "s' < ?n" "lab ! s' = int ?c'"
    and t': "t' < ?n" "lab ! t' \<noteq> int ?c'"
    and W': "?W ?c' = \<lparr>de_source = int s', de_target = int t',
                    de_weight = metric_distance d bvh m s' t'\<rparr>"
    and least: "\<And>e. e \<in> set (outgoing d bvh m lab ?c') \<Longrightarrow> edge_key (?W ?c') \<le> edge_key e"
    by blast
  let ?r = "\<lparr>de_source = int t, de_target = int s, de_weight = metric_distance d bvh m t s\<rparr>"
  have "?r \<in> set (outgoing d bvh m lab ?c')"
    using s t c' by (auto simp: outgoing_iff)
  then have "edge_key (?W ?c') \<le> edge_key ?r" by (rule least)
  moreover have sym: "metric_distance d bvh m t s = metric_distance d bvh m s t"
    using good s t by (simp add: good_metric_def)
  then have rkey: "edge_key ?r = edge_key (?W c)"
    by (simp add: W edge_key_reverse)
  ultimately have le: "edge_key (?W ?c') \<le> edge_key (?W c)" by simp
  have mutual: "mutual_pair ?oes c ?c' \<longleftrightarrow> edge_key (?W ?c') = edge_key (?W c)"
  proof
    assume "mutual_pair ?oes c ?c'"
    then have "s' = t" "t' = s"
      using c c' by (simp_all add: mutual_pair_def W W')
    then show "edge_key (?W ?c') = edge_key (?W c)"
      using rkey by (simp add: W')
  next
    assume eq: "edge_key (?W ?c') = edge_key (?W c)"
    have "int s' \<noteq> int s" using s s' c' by auto
    from eq [unfolded W W', symmetric] this have "int s' = int t \<and> int t' = int s"
      by (rule edge_key_same_ends)
    then show "mutual_pair ?oes c ?c'"
      using c c' by (simp add: mutual_pair_def W W')
  qed
  show "0 \<le> de_source (?oes ! c) \<and> 0 \<le> de_target (?oes ! c) \<and>
        src ?oes c < ?n \<and> tgt ?oes c < ?n \<and>
        lab ! src ?oes c = int c \<and> lab ! tgt ?oes c \<noteq> int c \<and>
        edge_key (?oes ! next_component lab ?oes c) \<le> edge_key (?oes ! c) \<and>
        (mutual_pair ?oes c (next_component lab ?oes c) \<longleftrightarrow>
           edge_key (?oes ! next_component lab ?oes c) = edge_key (?oes ! c))"
    unfolding nxt using c c' s t le mutual by (simp add: src_def tgt_def W)
qed

lemma picks_next:
  assumes "labels_ok n lab" "picks n lab oes" "c \<in> comps n lab"
  shows "next_component lab oes c \<in> comps n lab" "next_component lab oes c \<noteq> c"
    "real_winner (oes ! c)" "next_component lab oes c < n"
proof -
  from assms(2,3) have t: "tgt oes c < n" "lab ! tgt oes c \<noteq> int c" "0 \<le> de_target (oes ! c)"
    by (simp_all add: picks_def)
  have nx: "next_component lab oes c = nat (lab ! tgt oes c)"
    by (simp add: next_component_def tgt_def)
  show a: "next_component lab oes c \<in> comps n lab"
    unfolding nx using assms(1) t(1) by (rule comps_label)
  show "next_component lab oes c \<noteq> c"
    unfolding nx using assms(1) t by (auto simp: labels_ok_def)
  show "real_winner (oes ! c)" using t by (simp add: real_winner_def)
  show "next_component lab oes c < n" using a by (simp add: comps_def)
qed

lemma mutual_pair_sym: "mutual_pair oes c c' \<longleftrightarrow> mutual_pair oes c' c"
  by (auto simp: mutual_pair_def)

lemma mutual_next:
  assumes "labels_ok n lab" "picks n lab oes" "c \<in> comps n lab"
    and "mutual_pair oes c (next_component lab oes c)"
  shows "next_component lab oes (next_component lab oes c) = c"
proof -
  from assms(2,3) have s: "lab ! src oes c = int c" by (simp add: picks_def)
  from assms(4) have "de_target (oes ! next_component lab oes c) = de_source (oes ! c)"
    by (simp add: mutual_pair_def)
  then have "next_component lab oes (next_component lab oes c) = nat (lab ! src oes c)"
    by (simp add: next_component_def [of lab oes "next_component lab oes c"] src_def)
  with s show ?thesis by simp
qed

lemma parent_cases:
  assumes "labels_ok n lab" "picks n lab oes" "c \<in> comps n lab"
  shows "parent_component lab oes c =
           (if mutual_pair oes c (next_component lab oes c)
            then min c (next_component lab oes c) else next_component lab oes c)"
  using picks_next(3) [OF assms] by (simp add: parent_component_def Let_def)

lemma parent_in:
  assumes "labels_ok n lab" "picks n lab oes" "c \<in> comps n lab"
  shows "parent_component lab oes c \<in> comps n lab"
  using picks_next(1) [OF assms] assms(3)
  by (simp add: parent_cases [OF assms] min_def)

lemma root_iff:
  assumes "labels_ok n lab" "picks n lab oes" "c \<in> comps n lab"
  shows "parent_component lab oes c = c \<longleftrightarrow>
           mutual_pair oes c (next_component lab oes c) \<and> c < next_component lab oes c"
  using picks_next(2) [OF assms]
  by (auto simp: parent_cases [OF assms] min_def)

lemma parent_rank:
  fixes oes :: "'w::linorder DirectedEdge list"
  assumes "labels_ok n lab" "picks n lab oes" "c \<in> comps n lab"
    and "\<not> mutual_pair oes c (next_component lab oes c)"
  shows "edge_key (oes ! parent_component lab oes c) < edge_key (oes ! c)"
proof -
  from assms(2,3) have "edge_key (oes ! next_component lab oes c) \<le> edge_key (oes ! c)"
    and "mutual_pair oes c (next_component lab oes c) \<longleftrightarrow>
           edge_key (oes ! next_component lab oes c) = edge_key (oes ! c)"
    by (simp_all add: picks_def)
  with assms(4) show ?thesis
    by (simp add: parent_cases [OF assms(1-3)] less_le)
qed

lemma parent_of_larger:
  assumes "labels_ok n lab" "picks n lab oes" "c \<in> comps n lab"
    and "mutual_pair oes c (next_component lab oes c)"
    and "\<not> c < next_component lab oes c"
  shows "parent_component lab oes c = next_component lab oes c"
    and "parent_component lab oes (next_component lab oes c) = next_component lab oes c"
proof -
  let ?c' = "next_component lab oes c"
  have c': "?c' \<in> comps n lab" "?c' \<noteq> c" using picks_next [OF assms(1-3)] by simp_all
  with assms(5) have lt: "?c' < c" by simp
  show "parent_component lab oes c = ?c'"
    using assms(4) lt by (simp add: parent_cases [OF assms(1-3)] min_def)
  have bk: "next_component lab oes ?c' = c" using assms(1-4) by (rule mutual_next)
  have "mutual_pair oes ?c' c" using assms(4) by (simp add: mutual_pair_sym)
  then show "parent_component lab oes ?c' = ?c'"
    using lt bk by (simp add: parent_cases [OF assms(1,2) c'(1)] min_def)
qed

lemma funpow_fixed: "f x = x \<Longrightarrow> (f ^^ k) x = x"
  by (induction k) simp_all

lemma funpow_stuck:
  assumes "f ((f ^^ k) x) = (f ^^ k) x" "k \<le> k'"
  shows "(f ^^ k') x = (f ^^ k) x"
proof -
  from assms(2) obtain j where "k' = j + k" by (metis le_iff_add add.commute)
  then show ?thesis using assms(1) by (simp add: funpow_add funpow_fixed)
qed

text \<open>The number of components whose winner is below the winner of \<open>c\<close>.\<close>

definition below_rank :: "nat \<Rightarrow> int list \<Rightarrow> 'w::linorder DirectedEdge list \<Rightarrow> nat \<Rightarrow> nat" where
  "below_rank n lab oes c =
     card {c' \<in> comps n lab. edge_key (oes ! c') < edge_key (oes ! c)}"

lemma below_rank_less:
  fixes oes :: "'w::linorder DirectedEdge list"
  assumes "c' \<in> comps n lab" "edge_key (oes ! c') < edge_key (oes ! c)"
  shows "below_rank n lab oes c' < below_rank n lab oes c"
  unfolding below_rank_def
proof (rule psubset_card_mono)
  show "finite {x \<in> comps n lab. edge_key (oes ! x) < edge_key (oes ! c)}" by simp
  show "{x \<in> comps n lab. edge_key (oes ! x) < edge_key (oes ! c')}
          \<subset> {x \<in> comps n lab. edge_key (oes ! x) < edge_key (oes ! c)}"
    using assms by auto
qed

lemma below_rank_bound:
  fixes oes :: "'w::linorder DirectedEdge list"
  assumes "c \<in> comps n lab"
  shows "below_rank n lab oes c < card (comps n lab)"
  unfolding below_rank_def
  by (rule psubset_card_mono) (use assms in auto)

lemma reaches_root:
  fixes oes :: "'w::linorder DirectedEdge list"
  assumes ok: "labels_ok n lab" "picks n lab oes"
    and c: "c \<in> comps n lab"
  shows "parent_component lab oes ((parent_component lab oes ^^ Suc (below_rank n lab oes c)) c) =
           (parent_component lab oes ^^ Suc (below_rank n lab oes c)) c"
  using c
proof (induction "below_rank n lab oes c" arbitrary: c rule: less_induct)
  case less
  let ?p = "parent_component lab oes"
  let ?c' = "next_component lab oes c"
  show ?case
  proof (cases "mutual_pair oes c ?c'")
    case True
    show ?thesis
    proof (cases "c < ?c'")
      case lt: True
      with True have "?p c = c" using root_iff [OF ok less.prems] by simp
      then show ?thesis by (simp add: funpow_fixed)
    next
      case False
      from parent_of_larger [OF ok less.prems True False]
      have "?p (?p c) = ?p c" by simp
      then have "?p ((?p ^^ 1) c) = (?p ^^ 1) c" by simp
      then have "(?p ^^ Suc (below_rank n lab oes c)) c = (?p ^^ 1) c"
        by (rule funpow_stuck) simp
      then show ?thesis using \<open>?p (?p c) = ?p c\<close> by simp
    qed
  next
    case False
    have pc: "?p c \<in> comps n lab" using ok less.prems by (rule parent_in)
    have "edge_key (oes ! ?p c) < edge_key (oes ! c)"
      using ok less.prems False by (rule parent_rank)
    with pc have lt: "below_rank n lab oes (?p c) < below_rank n lab oes c"
      by (rule below_rank_less)
    from less.hyps [OF lt pc]
    have fx: "?p ((?p ^^ Suc (below_rank n lab oes (?p c))) (?p c)) =
               (?p ^^ Suc (below_rank n lab oes (?p c))) (?p c)" .
    from fx have fx': "?p ((?p ^^ Suc (Suc (below_rank n lab oes (?p c)))) c) =
               (?p ^^ Suc (Suc (below_rank n lab oes (?p c)))) c"
      by (simp add: funpow_swap1)
    have "(?p ^^ Suc (below_rank n lab oes c)) c =
          (?p ^^ Suc (Suc (below_rank n lab oes (?p c)))) c"
      using fx' by (rule funpow_stuck) (use lt in simp)
    with fx' show ?thesis by simp
  qed
qed

lemma comps_card_le: "card (comps n lab) \<le> n"
proof -
  have "comps n lab \<subseteq> {..<n}" by (auto simp: comps_def)
  then have "card (comps n lab) \<le> card {..<n}" by (intro card_mono) simp_all
  then show ?thesis by simp
qed

lemma parent_funpow_in:
  assumes "labels_ok n lab" "picks n lab oes" "c \<in> comps n lab"
  shows "(parent_component lab oes ^^ k) c \<in> comps n lab"
  by (induction k) (simp_all add: assms parent_in)

lemma final_component_props:
  fixes oes :: "'w::linorder DirectedEdge list"
  assumes ok: "labels_ok n lab" "picks n lab oes" and c: "c \<in> comps n lab"
  shows "final_component lab oes n c \<in> comps n lab"
    and "parent_component lab oes (final_component lab oes n c) = final_component lab oes n c"
    and "final_component lab oes n (parent_component lab oes c) = final_component lab oes n c"
proof -
  let ?p = "parent_component lab oes"
  let ?k = "Suc (below_rank n lab oes c)"
  have k: "?k \<le> n"
    using below_rank_bound [OF c, of oes] comps_card_le [of n lab] by simp
  have stuck: "?p ((?p ^^ ?k) c) = (?p ^^ ?k) c" using ok c by (rule reaches_root)
  have fin: "(?p ^^ n) c = (?p ^^ ?k) c" using stuck k by (rule funpow_stuck)
  show "final_component lab oes n c \<in> comps n lab"
    unfolding final_component_def using ok c by (rule parent_funpow_in)
  show fixed: "?p (final_component lab oes n c) = final_component lab oes n c"
    unfolding final_component_def fin by (rule stuck)
  have "(?p ^^ n) (?p c) = ?p ((?p ^^ n) c)" by (simp add: funpow_swap1)
  then show "final_component lab oes n (?p c) = final_component lab oes n c"
    using fixed by (simp add: final_component_def)
qed

lemma final_of_root:
  "parent_component lab oes r = r \<Longrightarrow> final_component lab oes n r = r"
  by (simp add: final_component_def funpow_fixed)

text \<open>The roots, and the components that leave the emission to their partner.\<close>

definition roots :: "nat \<Rightarrow> int list \<Rightarrow> 'w DirectedEdge list \<Rightarrow> nat set" where
  "roots n lab oes = {c \<in> comps n lab. parent_component lab oes c = c}"

definition silent :: "nat \<Rightarrow> int list \<Rightarrow> 'w DirectedEdge list \<Rightarrow> nat set" where
  "silent n lab oes =
     {c \<in> comps n lab. mutual_pair oes c (next_component lab oes c) \<and>
        \<not> c < next_component lab oes c}"

lemma roots_finite [simp]: "finite (roots n lab oes)"
  by (simp add: roots_def)

lemma silent_finite [simp]: "finite (silent n lab oes)"
  by (simp add: silent_def)

lemma roots_silent_bij:
  assumes ok: "labels_ok n lab" "picks n lab oes"
  shows "bij_betw (next_component lab oes) (roots n lab oes) (silent n lab oes)"
proof (rule bij_betw_byWitness [where f' = "next_component lab oes"])
  let ?nx = "next_component lab oes"
  have r: "?nx r \<in> silent n lab oes \<and> ?nx (?nx r) = r" if "r \<in> roots n lab oes" for r
  proof -
    from that have rc: "r \<in> comps n lab" and "parent_component lab oes r = r"
      by (simp_all add: roots_def)
    then have m: "mutual_pair oes r (?nx r)" and lt: "r < ?nx r"
      using root_iff [OF ok rc] by simp_all
    have bk: "?nx (?nx r) = r" using ok rc m by (rule mutual_next)
    have "?nx r \<in> comps n lab" using ok rc by (rule picks_next)
    moreover have "mutual_pair oes (?nx r) (?nx (?nx r))"
      using m by (simp add: bk mutual_pair_sym)
    ultimately show ?thesis using lt bk by (simp add: silent_def)
  qed
  have q: "?nx q \<in> roots n lab oes \<and> ?nx (?nx q) = q" if "q \<in> silent n lab oes" for q
  proof -
    from that have qc: "q \<in> comps n lab" and m: "mutual_pair oes q (?nx q)"
      and nlt: "\<not> q < ?nx q" by (simp_all add: silent_def)
    have nq: "?nx q \<in> comps n lab" "?nx q \<noteq> q" using picks_next [OF ok qc] by simp_all
    have bk: "?nx (?nx q) = q" using ok qc m by (rule mutual_next)
    have "mutual_pair oes (?nx q) (?nx (?nx q))" using m by (simp add: bk mutual_pair_sym)
    moreover have "?nx q < ?nx (?nx q)" using nlt nq by (simp add: bk)
    ultimately have "parent_component lab oes (?nx q) = ?nx q"
      using root_iff [OF ok nq(1)] by simp
    then show ?thesis using nq bk by (simp add: roots_def)
  qed
  show "\<forall>a\<in>roots n lab oes. ?nx (?nx a) = a" using r by simp
  show "\<forall>a'\<in>silent n lab oes. ?nx (?nx a') = a'" using q by simp
  show "?nx ` roots n lab oes \<subseteq> silent n lab oes" using r by auto
  show "?nx ` silent n lab oes \<subseteq> roots n lab oes" using q by auto
qed

lemma roots_silent_card:
  assumes ok: "labels_ok n lab" "picks n lab oes"
  shows "card (silent n lab oes) = card (roots n lab oes)"
  using roots_silent_bij [OF ok] by (simp add: bij_betw_same_card)

lemma roots_silent_disjoint:
  assumes ok: "labels_ok n lab" "picks n lab oes"
  shows "roots n lab oes \<inter> silent n lab oes = {}"
proof -
  have "r \<notin> silent n lab oes" if "r \<in> roots n lab oes" for r
  proof -
    from that have rc: "r \<in> comps n lab" and "parent_component lab oes r = r"
      by (simp_all add: roots_def)
    then have "r < next_component lab oes r" using root_iff [OF ok rc] by simp
    then show ?thesis by (simp add: silent_def)
  qed
  then show ?thesis by auto
qed

text \<open>At least half of the components go away.\<close>

lemma roots_half:
  assumes ok: "labels_ok n lab" "picks n lab oes"
  shows "2 * card (roots n lab oes) \<le> card (comps n lab)"
proof -
  have "roots n lab oes \<union> silent n lab oes \<subseteq> comps n lab"
    by (auto simp: roots_def silent_def)
  then have "card (roots n lab oes \<union> silent n lab oes) \<le> card (comps n lab)"
    by (intro card_mono) simp_all
  moreover have "card (roots n lab oes \<union> silent n lab oes) =
                 card (roots n lab oes) + card (silent n lab oes)"
    using roots_silent_disjoint [OF ok] by (intro card_Un_disjoint) simp_all
  ultimately show ?thesis using roots_silent_card [OF ok] by simp
qed

lemma roots_nonempty:
  fixes oes :: "'w::linorder DirectedEdge list"
  assumes ok: "labels_ok n lab" "picks n lab oes" and c: "c \<in> comps n lab"
  shows "final_component lab oes n c \<in> roots n lab oes"
  using final_component_props(1,2) [OF ok c] by (simp add: roots_def)

text \<open>The components that emit: all but the silent ones.\<close>

lemma emitting_set:
  assumes ok: "labels_ok n lab" "picks n lab oes"
  shows "{c. c < n \<and> emits lab oes c} = comps n lab - silent n lab oes"
proof -
  have "c < n \<and> emits lab oes c \<longleftrightarrow> c \<in> comps n lab \<and> c \<notin> silent n lab oes" for c
  proof (cases "c \<in> comps n lab")
    case True
    then have "c < n" "lab ! c = int c" by (simp_all add: comps_def)
    then show ?thesis
      using picks_next(3) [OF ok True] True by (auto simp: emits_def silent_def)
  next
    case False
    then show ?thesis by (auto simp: emits_def comps_def)
  qed
  then show ?thesis by auto
qed

lemma emitting_card:
  assumes ok: "labels_ok n lab" "picks n lab oes"
  shows "card {c. c < n \<and> emits lab oes c} + card (roots n lab oes) = card (comps n lab)"
proof -
  have sub: "silent n lab oes \<subseteq> comps n lab" by (auto simp: silent_def)
  have "card (comps n lab - silent n lab oes) = card (comps n lab) - card (silent n lab oes)"
    using sub by (intro card_Diff_subset) simp_all
  moreover have "card (silent n lab oes) \<le> card (comps n lab)"
    using sub by (intro card_mono) simp_all
  ultimately show ?thesis
    by (simp add: emitting_set [OF ok] roots_silent_card [OF ok])
qed

subsection \<open>The kernels of the union step\<close>

lemma emit_frame [simp]:
  "f_labels (emit Mode c f) = f_labels f"
  "f_out_edges (emit Mode c f) = f_out_edges f"
  "length (f_edges (emit Mode c f)) = length (f_edges f)"
  "length (f_edges_mapping (emit Mode c f)) = length (f_edges_mapping f)"
  by (simp_all add: emit_def)

lemma fold_emit_frame [simp]:
  "f_labels (fold (emit Mode) cs f) = f_labels f"
  "f_out_edges (fold (emit Mode) cs f) = f_out_edges f"
  "length (f_edges (fold (emit Mode) cs f)) = length (f_edges f)"
  "length (f_edges_mapping (fold (emit Mode) cs f)) = length (f_edges_mapping f)"
  by (induction cs arbitrary: f) simp_all

lemma fold_emit_count:
  "f_num_edges (fold (emit Mode) cs f) =
     f_num_edges f + int (length (filter (emits (f_labels f) (f_out_edges f)) cs))"
proof (induction cs arbitrary: f)
  case Nil
  then show ?case by simp
next
  case (Cons c cs)
  have "f_num_edges (emit Mode c f) =
          f_num_edges f + (if emits (f_labels f) (f_out_edges f) c then 1 else 0)"
    by (simp add: emit_def)
  then show ?case by (simp add: Cons.IH)
qed

text \<open>The slots the emission fills, and the slots it leaves.\<close>

lemma fold_emit_edges:
  assumes "0 \<le> f_num_edges f"
    and "nat (f_num_edges f) + length (filter (emits (f_labels f) (f_out_edges f)) cs)
           \<le> length (f_edges f)"
  shows "take (nat (f_num_edges f) + length (filter (emits (f_labels f) (f_out_edges f)) cs))
           (f_edges (fold (emit Mode) cs f)) =
         take (nat (f_num_edges f)) (f_edges f) @
         map (\<lambda>c. as_weighted (f_out_edges f ! c))
           (filter (emits (f_labels f) (f_out_edges f)) cs)"
  using assms
proof (induction cs arbitrary: f)
  case Nil
  then show ?case by simp
next
  case (Cons c cs)
  let ?E = "emits (f_labels f) (f_out_edges f)"
  let ?k = "nat (f_num_edges f)"
  show ?case
  proof (cases "?E c")
    case True
    let ?f1 = "emit Mode c f"
    have f1: "f_num_edges ?f1 = f_num_edges f + 1"
      "f_edges ?f1 = (f_edges f)[?k := as_weighted (f_out_edges f ! c)]"
      using True by (simp_all add: emit_def)
    have k1: "nat (f_num_edges ?f1) = Suc ?k" using Cons.prems(1) by (simp add: f1)
    have k1': "nat (f_num_edges f + 1) = Suc ?k" using Cons.prems(1) by simp
    have lt: "?k < length (f_edges f)" using Cons.prems(2) True by simp
    have p1: "0 \<le> f_num_edges ?f1" using Cons.prems(1) by (simp add: f1)
    have p2: "nat (f_num_edges ?f1) +
                length (filter (emits (f_labels ?f1) (f_out_edges ?f1)) cs)
                \<le> length (f_edges ?f1)"
      using Cons.prems(2) True by (simp add: k1)
    from Cons.IH [OF p1 p2]
    have "take (Suc ?k + length (filter ?E cs)) (f_edges (fold (emit Mode) cs ?f1)) =
          take (Suc ?k) ((f_edges f)[?k := as_weighted (f_out_edges f ! c)]) @
          map (\<lambda>c. as_weighted (f_out_edges f ! c)) (filter ?E cs)"
      by (simp add: k1' f1)
    moreover have "take (Suc ?k) ((f_edges f)[?k := as_weighted (f_out_edges f ! c)]) =
                   take ?k (f_edges f) @ [as_weighted (f_out_edges f ! c)]"
      using lt by (simp add: take_Suc_conv_app_nth)
    ultimately show ?thesis using True by simp
  next
    case False
    then have "emit Mode c f = f" by (simp add: emit_def)
    then show ?thesis using Cons False by simp
  qed
qed

lemma record_partner_frame [simp]:
  "f_labels (record_partner c f) = f_labels f"
  "f_out_edges (record_partner c f) = f_out_edges f"
  "f_edges (record_partner c f) = f_edges f"
  "f_num_edges (record_partner c f) = f_num_edges f"
  "length (f_edges_mapping (record_partner c f)) = length (f_edges_mapping f)"
  by (simp_all add: record_partner_def Let_def)

lemma fold_record_partner_frame [simp]:
  "f_labels (fold record_partner cs f) = f_labels f"
  "f_out_edges (fold record_partner cs f) = f_out_edges f"
  "f_edges (fold record_partner cs f) = f_edges f"
  "f_num_edges (fold record_partner cs f) = f_num_edges f"
  "length (f_edges_mapping (fold record_partner cs f)) = length (f_edges_mapping f)"
  by (induction cs arbitrary: f) simp_all

text \<open>The labels after the union step.\<close>

definition new_labels :: "nat \<Rightarrow> int list \<Rightarrow> 'w DirectedEdge list \<Rightarrow> int list" where
  "new_labels n lab oes =
     map (\<lambda>i. if i < n then int (final_component lab oes n (nat (lab ! i))) else lab ! i)
       [0..<length lab]"

lemma LabelsTag_spec_labels:
  "f_labels (LabelsTag_spec Mode n f) = new_labels n (f_labels f) (f_out_edges f)"
  by (simp add: LabelsTag_spec_def new_labels_def)

lemma new_labels_length [simp]: "length (new_labels n lab oes) = length lab"
  by (simp add: new_labels_def)

lemma new_labels_nth:
  "labels_ok n lab \<Longrightarrow> i < n \<Longrightarrow>
     new_labels n lab oes ! i = int (final_component lab oes n (nat (lab ! i)))"
  by (simp add: new_labels_def labels_ok_def)

lemma new_labels_ok:
  fixes oes :: "'w::linorder DirectedEdge list"
  assumes ok: "labels_ok n lab" "picks n lab oes"
  shows "labels_ok n (new_labels n lab oes)"
    and "comps n (new_labels n lab oes) = roots n lab oes"
proof -
  let ?fin = "final_component lab oes n"
  let ?new = "new_labels n lab oes"
  have len: "n \<le> length ?new" using ok(1) by (simp add: labels_ok_def)
  have nth: "?new ! i = int (?fin (nat (lab ! i)))" if "i < n" for i
    using ok(1) that by (rule new_labels_nth)
  have root: "?fin (nat (lab ! i)) \<in> roots n lab oes" if "i < n" for i
    using ok comps_label [OF ok(1) that] by (rule roots_nonempty)
  have self: "?new ! r = int r" if "r \<in> roots n lab oes" for r
  proof -
    from that have r: "r < n" "lab ! r = int r" "parent_component lab oes r = r"
      by (simp_all add: roots_def comps_def)
    then show ?thesis by (simp add: nth final_of_root)
  qed
  show "labels_ok n ?new"
    unfolding labels_ok_def
  proof (intro conjI allI impI)
    show "n \<le> length ?new" by (rule len)
  next
    fix i assume i: "i < n"
    show "0 \<le> ?new ! i" by (simp add: nth i)
    from root [OF i] have r: "?fin (nat (lab ! i)) \<in> roots n lab oes" .
    then show "nat (?new ! i) < n" by (simp add: nth i roots_def comps_def)
    from self [OF r] show "?new ! nat (?new ! i) = ?new ! i" by (simp add: nth i)
  qed
  show "comps n ?new = roots n lab oes"
  proof (intro set_eqI iffI)
    fix c assume "c \<in> comps n ?new"
    then have c: "c < n" "?new ! c = int c" by (simp_all add: comps_def)
    with root [OF c(1)] show "c \<in> roots n lab oes" by (simp add: nth)
  next
    fix r assume r: "r \<in> roots n lab oes"
    then have "r < n" by (simp add: roots_def comps_def)
    with self [OF r] show "r \<in> comps n ?new" by (simp add: comps_def)
  qed
qed

text \<open>The labels of the leaves survive the reduction to the inner nodes.\<close>

lemma reduceLabels_spec_leaves:
  assumes "length lab = 2 * n - 1" "0 < n"
  shows "length (reduceLabels_spec tp lab) = length lab"
    and "\<And>i. i < n \<Longrightarrow> reduceLabels_spec tp lab ! i = lab ! i"
proof -
  have n: "Suc (length lab) div 2 = n" using assms by simp
  show "length (reduceLabels_spec tp lab) = length lab"
    by (simp add: reduceLabels_spec_def Let_def)
  show "reduceLabels_spec tp lab ! i = lab ! i" if "i < n" for i
  proof -
    have "i < length lab" using that assms by simp
    then show ?thesis using that by (simp add: reduceLabels_spec_def Let_def n)
  qed
qed

text \<open>Only the labels of the leaves matter.\<close>

lemma labels_ok_cong:
  assumes "\<And>i. i < n \<Longrightarrow> lab' ! i = lab ! i" "length lab' = length lab"
  shows "labels_ok n lab' \<longleftrightarrow> labels_ok n lab"
proof -
  have "labels_ok n b" if ok: "labels_ok n a" and eq: "\<And>i. i < n \<Longrightarrow> b ! i = a ! i"
    and len: "length b = length a" for a b :: "int list"
  proof -
    have "b ! nat (b ! i) = b ! i" if "i < n" for i
    proof -
      have "nat (a ! i) < n" "a ! nat (a ! i) = a ! i"
        using ok that by (simp_all add: labels_ok_def)
      then show ?thesis by (simp add: eq that)
    qed
    then show ?thesis using ok by (simp add: labels_ok_def eq len)
  qed
  from this [of lab lab'] this [of lab' lab] assms show ?thesis by auto
qed

lemma comps_cong:
  assumes "\<And>i. i < n \<Longrightarrow> lab' ! i = lab ! i"
  shows "comps n lab' = comps n lab"
  using assms by (auto simp: comps_def)

lemma deep_copy_replicate: "deep_copy xs v = replicate (length xs) v"
  by (simp add: deep_copy_def map_replicate_const)

lemma LabelsTag_spec_frame [simp]:
  "f_out_edges (LabelsTag_spec Mode n f) = f_out_edges f"
  "f_edges (LabelsTag_spec Mode n f) = f_edges f"
  "f_edges_mapping (LabelsTag_spec Mode n f) = f_edges_mapping f"
  "f_num_edges (LabelsTag_spec Mode n f) = f_num_edges f"
  by (simp_all add: LabelsTag_spec_def)

text \<open>What one iteration computes with the modelled callees.\<close>

definition found_spec ::
  "('p \<Rightarrow> 'p \<Rightarrow> 'w::{linorder,zero}) \<Rightarrow> 'w \<Rightarrow> ExecutionSpace \<Rightarrow> 'p list \<Rightarrow> 'w Metric \<Rightarrow> int list
    \<Rightarrow> 'w Boruvka \<Rightarrow> 'w list \<times> 'w DirectedEdge list \<times> 'w list \<times> 'w list" where
  "found_spec d infty space bvh m tp s =
     FindComponentNearestNeighbors_spec d bvh (reduceLabels_spec tp (labels s))
       (deep_copy (weights s) infty)
       (deep_copy (component_out_edges s)
          \<lparr>de_source = - 1, de_target = - 1, de_weight = infty\<rparr>)
       m (deep_copy (radii s) infty) (lower_bounds s) (use_shared_radii space)"

lemma spec_iteration_fields:
  fixes d :: "'p \<Rightarrow> 'p \<Rightarrow> 'w::{linorder,zero}" and infty :: 'w
  defines "it \<equiv> Boruvka_iteration (Details_spec d infty)"
  shows "labels (it space Mode bvh m n tp s) =
           new_labels n (reduceLabels_spec tp (labels s))
             (fst (snd (found_spec d infty space bvh m tp s)))"
    and "num_edges (it space Mode bvh m n tp s) =
           num_edges s + int (length (filter
             (emits (reduceLabels_spec tp (labels s))
                (fst (snd (found_spec d infty space bvh m tp s)))) [0..<n]))"
    and "edges_end (it space Mode bvh m n tp s) = num_edges (it space Mode bvh m n tp s)"
    and "component_out_edges (it space Mode bvh m n tp s) =
           fst (snd (found_spec d infty space bvh m tp s))"
    and "weights (it space Mode bvh m n tp s) = fst (found_spec d infty space bvh m tp s)"
    and "lower_bounds (it space Mode bvh m n tp s) =
           (if use_lower_bounds space
            then updateLowerBounds_spec (reduceLabels_spec tp (labels s))
                   (fst (snd (found_spec d infty space bvh m tp s)))
                   (snd (snd (snd (found_spec d infty space bvh m tp s))))
            else snd (snd (snd (found_spec d infty space bvh m tp s))))"
    and "edges (it space Mode bvh m n tp s) =
           f_edges (fold (emit Mode) [0..<n]
             \<lparr>f_labels = reduceLabels_spec tp (labels s),
              f_out_edges = fst (snd (found_spec d infty space bvh m tp s)),
              f_edges = edges s, f_edges_mapping = edges_mapping s,
              f_num_edges = num_edges s\<rparr>)"
  unfolding it_def
  by (simp_all add: Boruvka_iteration_def Details_spec_def Let_def found_spec_def
      UnidirectionalEdgesTag_spec_def BidirectionalEdgesTag_spec_def LabelsTag_spec_labels
      fold_emit_count)

lemma FindComponentNearestNeighbors_spec_weights:
  fixes ws :: "'w::linorder list" and shared :: bool
  assumes lab: "labels_ok (length bvh) lab"
    and oes: "out_edges = replicate (length bvh) \<lparr>de_source = - 1, de_target = - 1, de_weight = infty\<rparr>"
    and ws: "ws = replicate (length bvh) infty"
    and valid: "valid_bounds d bvh m lab lbs"
  shows "fst (FindComponentNearestNeighbors_spec d bvh lab ws out_edges m rad lbs shared) =
           map (\<lambda>c. de_weight (winner d infty bvh m lab c)) [0..<length bvh]"
proof -
  let ?st = "\<lparr>s_weights = ws, s_out_edges = out_edges, s_radii = rad, s_lower_bounds = lbs\<rparr>"
  define r where "r = fold (search_leaf d bvh m lab shared) [0..<length bvh] ?st"
  have a1: "\<forall>i\<in>set [0..<length bvh]. i < length bvh \<and> nat (lab ! i) < length (s_out_edges ?st)"
    using lab by (simp add: labels_ok_def oes)
  have a2: "length (s_weights ?st) = length (s_out_edges ?st)" by (simp add: oes ws)
  have a3: "\<forall>c<length (s_out_edges ?st). s_weights ?st ! c = de_weight (s_out_edges ?st ! c)"
    by (simp add: oes ws)
  have a4: "valid_bounds d bvh m lab (s_lower_bounds ?st)" using valid by simp
  from search_fold [OF a1 a2 a3 a4, of shared]
  have len: "length (s_weights r) = length bvh"
    and nth: "\<forall>c<length bvh. s_weights r ! c = de_weight (s_out_edges r ! c)"
    unfolding r_def [symmetric] by (simp_all add: oes)
  have "s_out_edges r = map (winner d infty bvh m lab) [0..<length bvh]"
    using FindComponentNearestNeighbors_spec_winner(1) [OF lab oes ws valid, of rad shared]
    by (simp add: FindComponentNearestNeighbors_spec_def Let_def r_def)
  with nth have "\<forall>c<length bvh. s_weights r ! c = de_weight (winner d infty bvh m lab c)"
    by simp
  with len have "s_weights r = map (\<lambda>c. de_weight (winner d infty bvh m lab c)) [0..<length bvh]"
    by (intro nth_equalityI) simp_all
  then show ?thesis
    by (simp add: FindComponentNearestNeighbors_spec_def Let_def r_def)
qed

lemma valid_bounds_cong:
  assumes "valid_bounds d bvh m lab lbs" "length lbs \<le> length bvh"
    and "\<And>i j. i < length bvh \<Longrightarrow> j < length bvh \<Longrightarrow> lab' ! j \<noteq> lab' ! i \<Longrightarrow> lab ! j \<noteq> lab ! i"
  shows "valid_bounds d bvh m lab' lbs"
  unfolding valid_bounds_def
proof (intro allI impI)
  fix i j assume i: "i < length lbs" and j: "j < length bvh" and ne: "lab' ! j \<noteq> lab' ! i"
  from i assms(2) have "i < length bvh" by simp
  from assms(3) [OF this j ne] assms(1) i j
  show "lbs ! i \<le> metric_distance d bvh m i j" by (simp add: valid_bounds_def)
qed

lemma updateLowerBounds_spec_valid:
  fixes d :: "'p \<Rightarrow> 'p \<Rightarrow> 'w::{linorder,zero}"
  assumes "valid_bounds d bvh m lab lbs" "good_metric d infty bvh m" "length lbs \<le> length bvh"
  shows "valid_bounds d bvh m lab (updateLowerBounds_spec lab oes lbs)"
    and "length (updateLowerBounds_spec lab oes lbs) = length lbs"
proof -
  show "length (updateLowerBounds_spec lab oes lbs) = length lbs"
    by (simp add: updateLowerBounds_spec_def)
  show "valid_bounds d bvh m lab (updateLowerBounds_spec lab oes lbs)"
    unfolding valid_bounds_def
  proof (intro allI impI)
    fix i j assume i: "i < length (updateLowerBounds_spec lab oes lbs)"
      and j: "j < length bvh" and ne: "lab ! j \<noteq> lab ! i"
    from i have i': "i < length lbs" by (simp add: updateLowerBounds_spec_def)
    with assms(3) have "i < length bvh" by simp
    with assms(2) j have "0 \<le> metric_distance d bvh m i j" by (simp add: good_metric_def)
    moreover from assms(1) i' j ne have "lbs ! i \<le> metric_distance d bvh m i j"
      by (simp add: valid_bounds_def)
    ultimately show "updateLowerBounds_spec lab oes lbs ! i \<le> metric_distance d bvh m i j"
      using i' by (simp add: updateLowerBounds_spec_def Let_def)
  qed
qed

lemma length_filter_upt: "length (filter P [0..<n]) = card {c. c < n \<and> P c}"
proof -
  have "length (filter P [0..<n]) = card {i. i < length [0..<n] \<and> P ([0..<n] ! i)}"
    by (rule length_filter_conv_card)
  also have "{i. i < length [0..<n] \<and> P ([0..<n] ! i)} = {c. c < n \<and> P c}"
    by auto
  finally show ?thesis .
qed

lemma several_comps:
  assumes "2 \<le> card (comps n lab)"
  shows "\<exists>i<n. \<exists>j<n. lab ! i \<noteq> lab ! j"
proof -
  from assms obtain a b where "a \<in> comps n lab" "b \<in> comps n lab" "a \<noteq> b"
    by (metis card_le_Suc0_iff_eq comps_finite not_less_eq_eq numeral_2_eq_2)
  then have "a < n" "b < n" "lab ! a \<noteq> lab ! b" by (auto simp: comps_def)
  then show ?thesis by blast
qed

text \<open>What holds between the iterations, with the modelled callees.\<close>

definition spec_inv ::
  "('p \<Rightarrow> 'p \<Rightarrow> 'w::{linorder,zero}) \<Rightarrow> 'w \<Rightarrow> 'p list \<Rightarrow> 'w Metric \<Rightarrow> 'w Boruvka \<Rightarrow> bool" where
  "spec_inv d infty bvh m s =
     (0 < length bvh \<and> good_metric d infty bvh m \<and>
      length (labels s) = 2 * length bvh - 1 \<and> labels_ok (length bvh) (labels s) \<and>
      length (component_out_edges s) = length bvh \<and> length (weights s) = length bvh \<and>
      length (lower_bounds s) \<le> length bvh \<and>
      valid_bounds d bvh m (labels s) (lower_bounds s) \<and>
      num_edges s = int (length bvh) - int (card (comps (length bvh) (labels s))) \<and>
      num_components s = int (card (comps (length bvh) (labels s))) \<and>
      edges_end s = num_edges s \<and>
      length (edges s) = length bvh - 1)"


lemma spec_iteration_inv:
  fixes d :: "'p \<Rightarrow> 'p \<Rightarrow> 'w::{linorder,zero}" and infty :: 'w
    and space :: ExecutionSpace and Mode :: BoruvkaMode and tp :: "int list"
  assumes inv: "spec_inv d infty bvh m s"
    and two: "2 \<le> card (comps (length bvh) (labels s))"
  defines "s' \<equiv> Boruvka_iteration (Details_spec d infty) space Mode bvh m (length bvh) tp s"
  shows "spec_inv d infty bvh m s'"
    and "2 * card (comps (length bvh) (labels s')) \<le> card (comps (length bvh) (labels s))"
    and "1 \<le> card (comps (length bvh) (labels s'))"
proof -
  let ?n = "length bvh"
  let ?lab = "labels s"
  let ?lab1 = "reduceLabels_spec tp ?lab"
  let ?found = "found_spec d infty space bvh m tp s"
  let ?oes = "fst (snd ?found)"
  let ?lbs1 = "snd (snd (snd ?found))"
  let ?W = "winner d infty bvh m ?lab1"
  from inv have n: "0 < ?n" and good: "good_metric d infty bvh m"
    and len: "length ?lab = 2 * ?n - 1" and ok: "labels_ok ?n ?lab"
    and lens: "length (component_out_edges s) = ?n" "length (weights s) = ?n"
    and lbs_len: "length (lower_bounds s) \<le> ?n"
    and valid: "valid_bounds d bvh m ?lab (lower_bounds s)"
    and ne: "num_edges s = int ?n - int (card (comps ?n ?lab))"
    and elen: "length (edges s) = ?n - 1"
    by (simp_all add: spec_inv_def)
  note red = reduceLabels_spec_leaves [OF len n, where tp = tp]
  have ok1: "labels_ok ?n ?lab1" using ok red by (simp add: labels_ok_cong [of ?n ?lab1 ?lab])
  have comps1: "comps ?n ?lab1 = comps ?n ?lab" using red(2) by (rule comps_cong)
  have valid1: "valid_bounds d bvh m ?lab1 (lower_bounds s)"
    using valid lbs_len by (rule valid_bounds_cong) (simp add: red(2))
  have oes0: "deep_copy (component_out_edges s)
                \<lparr>de_source = - 1, de_target = - 1, de_weight = infty\<rparr> =
              replicate ?n \<lparr>de_source = - 1, de_target = - 1, de_weight = infty\<rparr>"
    by (simp add: deep_copy_replicate lens)
  have ws0: "deep_copy (weights s) infty = replicate ?n infty"
    by (simp add: deep_copy_replicate lens)
  note fc = FindComponentNearestNeighbors_spec_winner [OF ok1 oes0 ws0 valid1,
      of "deep_copy (radii s) infty" "use_shared_radii space"]
  have oes: "?oes = map ?W [0..<?n]" using fc(1) by (simp add: found_spec_def)
  have valid2: "valid_bounds d bvh m ?lab1 ?lbs1" using fc(2) by (simp add: found_spec_def)
  have lbs1_len: "length ?lbs1 = length (lower_bounds s)" using fc(3) by (simp add: found_spec_def)
  have ws: "fst ?found = map (\<lambda>c. de_weight (?W c)) [0..<?n]"
    using FindComponentNearestNeighbors_spec_weights [OF ok1 oes0 ws0 valid1,
      of "deep_copy (radii s) infty" "use_shared_radii space"]
    by (simp add: found_spec_def)
  have several: "\<exists>i<?n. \<exists>j<?n. ?lab1 ! i \<noteq> ?lab1 ! j"
    using two unfolding comps1 [symmetric] by (rule several_comps)
  have picks: "picks ?n ?lab1 ?oes"
    unfolding oes using good ok1 several by (rule winners_pick)
  note fields = spec_iteration_fields [of d infty space Mode bvh m ?n tp s, folded s'_def]
  have lab': "labels s' = new_labels ?n ?lab1 ?oes" by (rule fields(1))
  have ok': "labels_ok ?n (labels s')"
    and comps': "comps ?n (labels s') = roots ?n ?lab1 ?oes"
    unfolding lab' using ok1 picks by (rule new_labels_ok)+
  have half: "2 * card (roots ?n ?lab1 ?oes) \<le> card (comps ?n ?lab)"
    using roots_half [OF ok1 picks] by (simp add: comps1)
  from two obtain c where c: "c \<in> comps ?n ?lab1"
    unfolding comps1 by (cases "comps ?n ?lab = {}") auto
  have "final_component ?lab1 ?oes ?n c \<in> roots ?n ?lab1 ?oes"
    using ok1 picks c by (rule roots_nonempty)
  then have "roots ?n ?lab1 ?oes \<noteq> {}" by auto
  then have one: "1 \<le> card (roots ?n ?lab1 ?oes)"
    by (simp add: Suc_le_eq card_gt_0_iff)
  have emitted: "int (length (filter (emits ?lab1 ?oes) [0..<?n])) =
                 int (card (comps ?n ?lab)) - int (card (roots ?n ?lab1 ?oes))"
    using emitting_card [OF ok1 picks] by (simp add: length_filter_upt comps1)
  have ne': "num_edges s' = int ?n - int (card (comps ?n (labels s')))"
    by (simp add: fields(2) emitted ne comps')
  have nc': "num_components s' = int (card (comps ?n (labels s')))"
    unfolding s'_def iteration_num_components
    using ne' by (simp add: fields(3) [unfolded s'_def] s'_def)
  have coarse: "?lab1 ! j \<noteq> ?lab1 ! i" if "i < ?n" "j < ?n" "labels s' ! j \<noteq> labels s' ! i" for i j
    using that by (auto simp: lab' new_labels_nth [OF ok1])
  have valid': "valid_bounds d bvh m (labels s') (lower_bounds s')"
  proof (cases "use_lower_bounds space")
    case True
    have "valid_bounds d bvh m ?lab1 (updateLowerBounds_spec ?lab1 ?oes ?lbs1)"
      using valid2 good by (rule updateLowerBounds_spec_valid) (simp add: lbs1_len lbs_len)
    then have "valid_bounds d bvh m (labels s') (updateLowerBounds_spec ?lab1 ?oes ?lbs1)"
      by (rule valid_bounds_cong) (simp_all add: updateLowerBounds_spec_def lbs1_len lbs_len coarse)
    then show ?thesis using True by (simp add: fields(6))
  next
    case False
    have "valid_bounds d bvh m (labels s') ?lbs1"
      using valid2 by (rule valid_bounds_cong) (simp_all add: lbs1_len lbs_len coarse)
    then show ?thesis using False by (simp add: fields(6))
  qed
  have lbs': "length (lower_bounds s') \<le> ?n"
    by (simp add: fields(6) updateLowerBounds_spec_def lbs1_len lbs_len)
  have "length (labels s') = 2 * ?n - 1" by (simp add: lab' red(1) len)
  moreover have "length (component_out_edges s') = ?n" by (simp add: fields(4) oes)
  moreover have "length (weights s') = ?n" by (simp add: fields(5) ws)
  moreover have "length (edges s') = ?n - 1" by (simp add: fields(7) elen)
  ultimately show "spec_inv d infty bvh m s'"
    using n good ok' valid' lbs' ne' nc' fields(3) by (simp add: spec_inv_def)
  show "2 * card (comps ?n (labels s')) \<le> card (comps ?n ?lab)"
    using half by (simp add: comps')
  show "1 \<le> card (comps ?n (labels s'))" using one by (simp add: comps')
qed

subsection \<open>The number of iterations\<close>

fun ceil_log2 :: "nat \<Rightarrow> nat" where
  "ceil_log2 n = (if n \<le> 1 then 0 else Suc (ceil_log2 ((n + 1) div 2)))"

declare ceil_log2.simps [simp del]

lemma ceil_log2_upper: "n \<le> 2 ^ ceil_log2 n"
proof (induction n rule: ceil_log2.induct)
  case (1 n)
  show ?case
  proof (cases "n \<le> 1")
    case True
    then show ?thesis by (simp add: ceil_log2.simps [of n])
  next
    case False
    from 1 [OF False] have "(n + 1) div 2 \<le> 2 ^ ceil_log2 ((n + 1) div 2)" .
    then have "n \<le> 2 * 2 ^ ceil_log2 ((n + 1) div 2)" by linarith
    then show ?thesis using False by (simp add: ceil_log2.simps [of n])
  qed
qed

lemma ceil_log2_least: "n \<le> 2 ^ F \<Longrightarrow> ceil_log2 n \<le> F"
proof (induction n arbitrary: F rule: ceil_log2.induct)
  case (1 n)
  show ?case
  proof (cases "n \<le> 1")
    case True
    then show ?thesis by (simp add: ceil_log2.simps [of n])
  next
    case False
    with "1.prems" obtain F' where F: "F = Suc F'" by (cases F) auto
    with "1.prems" have "(n + 1) div 2 \<le> 2 ^ F'" by simp
    from "1.IH" [OF False this] show ?thesis
      using False F by (simp add: ceil_log2.simps [of n])
  qed
qed

subsection \<open>The loop of the driver: fuel\<close>

lemma loop_fuel_mono:
  assumes "Boruvka_loop fuel D space Mode bvh metric n tp s = Some r"
  shows "Boruvka_loop (fuel + k) D space Mode bvh metric n tp s = Some r"
  using assms
proof (induction fuel arbitrary: s)
  case 0
  then show ?case by simp
next
  case (Suc fuel)
  then show ?case by (auto simp: Let_def split: if_splits)
qed

lemma loop_iterations_le:
  assumes "Boruvka_loop fuel D space Mode bvh metric n tp s = Some r"
  shows "iterations r \<le> iterations s + int fuel"
  using assms
proof (induction fuel arbitrary: s)
  case 0
  then show ?case by simp
next
  case (Suc fuel)
  let ?s1 = "Boruvka_iteration D space Mode bvh metric n tp s"
  show ?case
  proof (cases "num_components ?s1 > 1")
    case True
    then have "Boruvka_loop fuel D space Mode bvh metric n tp ?s1 = Some r"
      using Suc.prems by (simp add: Let_def)
    from Suc.IH [OF this] show ?thesis by (simp add: iteration_iterations)
  next
    case False
    then have "r = ?s1" using Suc.prems by (simp add: Let_def)
    then show ?thesis by (simp add: iteration_iterations)
  qed
qed

subsection \<open>The loop with the modelled callees\<close>

text \<open>
  The numbers of components before the iterations, read off the edge offsets: before
  each of the first \<open>T\<close> iterations there was more than one component, and the
  iteration left at most half of them.
\<close>

definition progress :: "nat \<Rightarrow> int list \<Rightarrow> nat \<Rightarrow> bool" where
  "progress n offs T =
     (\<forall>t<T. 1 < int n - offs ! t \<and> 2 * (int n - offs ! Suc t) \<le> int n - offs ! t)"

lemma spec_loop_terminates:
  fixes d :: "'p \<Rightarrow> 'p \<Rightarrow> 'w::{linorder,zero}" and infty :: 'w
  assumes "spec_inv d infty bvh m s"
    and "bookkeeping ks0 space Mode m s"
    and "progress (length bvh) (edge_offsets s) (nat (iterations s))"
    and "2 \<le> card (comps (length bvh) (labels s))"
    and "card (comps (length bvh) (labels s)) \<le> 2 ^ fuel"
  shows "\<exists>r. Boruvka_loop fuel (Details_spec d infty) space Mode bvh m (length bvh) tp s = Some r \<and>
             spec_inv d infty bvh m r \<and> bookkeeping ks0 space Mode m r \<and>
             progress (length bvh) (edge_offsets r) (nat (iterations r)) \<and>
             card (comps (length bvh) (labels r)) = 1"
  using assms
proof (induction fuel arbitrary: s)
  case 0
  then show ?case by simp
next
  case (Suc fuel)
  let ?n = "length bvh"
  let ?D = "Details_spec d infty"
  let ?s1 = "Boruvka_iteration ?D space Mode bvh m ?n tp s"
  note it = spec_iteration_inv [OF Suc.prems(1) Suc.prems(4), of space Mode tp]
  have inv1: "spec_inv d infty bvh m ?s1" by (rule it(1))
  have book1: "bookkeeping ks0 space Mode m ?s1"
    using Suc.prems(2) by (rule iteration_bookkeeping)
  let ?T = "nat (iterations s)"
  from Suc.prems(2) have nonneg: "0 \<le> iterations s"
    and len: "length (edge_offsets s) = ?T + 1"
    and e_end: "edges_end s = edge_offsets s ! ?T"
    by (simp_all add: bookkeeping_def)
  from Suc.prems(1) have count: "int ?n - edges_end s = int (card (comps ?n (labels s)))"
    by (simp add: spec_inv_def)
  from inv1 have count1: "int ?n - edges_end ?s1 = int (card (comps ?n (labels ?s1)))"
    by (simp add: spec_inv_def)
  have T1: "nat (iterations ?s1) = Suc ?T"
    using nonneg by (simp add: iteration_iterations nat_add_distrib)
  have offs1: "edge_offsets ?s1 = edge_offsets s @ [edges_end ?s1]"
    by (rule iteration_edge_offsets)
  have prog1: "progress ?n (edge_offsets ?s1) (nat (iterations ?s1))"
    unfolding progress_def T1
  proof (intro allI impI)
    fix t assume t: "t < Suc ?T"
    show "1 < int ?n - edge_offsets ?s1 ! t \<and>
          2 * (int ?n - edge_offsets ?s1 ! Suc t) \<le> int ?n - edge_offsets ?s1 ! t"
    proof (cases "t < ?T")
      case True
      then have "edge_offsets ?s1 ! t = edge_offsets s ! t"
        "edge_offsets ?s1 ! Suc t = edge_offsets s ! Suc t"
        using len by (simp_all add: offs1 nth_append)
      with Suc.prems(3) True show ?thesis by (simp add: progress_def)
    next
      case False
      with t have tT: "t = ?T" by simp
      have a: "edge_offsets ?s1 ! t = edges_end s"
        using len by (simp add: tT offs1 nth_append e_end)
      have b: "edge_offsets ?s1 ! Suc t = edges_end ?s1"
        using len by (simp add: tT offs1 nth_append)
      show ?thesis
        unfolding a b count count1 using Suc.prems(4) it(2) by simp
    qed
  qed
  show ?case
  proof (cases "num_components ?s1 > 1")
    case True
    then have two1: "2 \<le> card (comps ?n (labels ?s1))"
      using inv1 by (simp add: spec_inv_def)
    have "card (comps ?n (labels ?s1)) \<le> 2 ^ fuel"
      using it(2) Suc.prems(5) by simp
    from Suc.IH [OF inv1 book1 prog1 two1 this] True show ?thesis by (simp add: Let_def)
  next
    case False
    then have "card (comps ?n (labels ?s1)) \<le> 1"
      using inv1 by (simp add: spec_inv_def)
    with it(3) have "card (comps ?n (labels ?s1)) = 1" by simp
    with False inv1 book1 prog1 show ?thesis by (simp add: Let_def)
  qed
qed

text \<open>The distance of two points: symmetric, finite, not negative.\<close>

definition metric_axioms :: "('p \<Rightarrow> 'p \<Rightarrow> 'w::{linorder,zero}) \<Rightarrow> 'w \<Rightarrow> bool" where
  "metric_axioms d infty = (\<forall>a b. d a b = d b a \<and> d a b < infty \<and> 0 \<le> d a b)"

lemma core_distance_is_distance:
  fixes d :: "'p \<Rightarrow> 'p \<Rightarrow> 'w::linorder"
  assumes "bvh \<noteq> []"
  shows "\<exists>q. core_distance d bvh k p = d p q"
proof -
  let ?ds = "sort (map (d p) bvh)"
  have "min k n - 1 < n" if "0 < n" for n :: nat using that by arith
  moreover have "0 < length ?ds" using assms by simp
  ultimately have "min k (length ?ds) - 1 < length ?ds" by blast
  then have "?ds ! (min k (length ?ds) - 1) \<in> set ?ds" by (rule nth_mem)
  then show ?thesis by (auto simp: core_distance_def Let_def)
qed

lemma ctor_metric_good:
  fixes d :: "'p \<Rightarrow> 'p \<Rightarrow> 'w::{linorder,zero}"
  assumes ax: "metric_axioms d infty" and ne: "ps \<noteq> []"
  shows "good_metric d infty ps (ctor_metric (Details_spec d infty) ps k)"
proof (cases "k > 1")
  case False
  then show ?thesis
    using ax by (simp add: ctor_metric_def good_metric_def metric_distance_def metric_axioms_def)
next
  case True
  define core where "core = map (core_distance d ps (nat k)) ps"
  have m: "ctor_metric (Details_spec d infty) ps k = MutualReachability core"
    using True by (simp add: ctor_metric_def Details_spec_def bvh_query_nearest_spec_def core_def)
  have core: "core ! i < infty \<and> 0 \<le> core ! i" if "i < length ps" for i
  proof -
    from core_distance_is_distance [OF ne, of d "nat k" "ps ! i"]
    obtain q where "core_distance d ps (nat k) (ps ! i) = d (ps ! i) q" ..
    then show ?thesis using that ax by (simp add: core_def metric_axioms_def)
  qed
  show ?thesis
    unfolding m good_metric_def
  proof (intro allI impI)
    fix i j assume i: "i < length ps" and j: "j < length ps"
    have dist: "d (ps ! i) (ps ! j) = d (ps ! j) (ps ! i)" "d (ps ! i) (ps ! j) < infty"
      "0 \<le> d (ps ! i) (ps ! j)"
      using ax by (simp_all add: metric_axioms_def)
    show "metric_distance d ps (MutualReachability core) i j =
            metric_distance d ps (MutualReachability core) j i \<and>
          metric_distance d ps (MutualReachability core) i j < infty \<and>
          0 \<le> metric_distance d ps (MutualReachability core) i j"
      using core [OF i] core [OF j] dist
      by (simp add: metric_distance_def max.commute max.left_commute le_max_iff_disj)
  qed
qed

lemma comps_iota:
  assumes "0 < n"
  shows "labels_ok n (iota_subview (without_initializing junk (2 * n - 1)) n)"
    and "comps n (iota_subview (without_initializing junk (2 * n - 1)) n) = {..<n}"
proof -
  define lab where "lab = iota_subview (without_initializing junk (2 * n - 1)) n"
  have len: "length lab = 2 * n - 1"
    by (simp add: lab_def iota_subview_def without_initializing_def)
  have nth: "lab ! i = int i" if "i < n" for i
  proof -
    have "i < 2 * n - 1" using that by simp
    then show ?thesis using that by (simp add: lab_def iota_subview_def without_initializing_def)
  qed
  have "labels_ok n lab" using assms by (simp add: labels_ok_def len nth)
  then show "labels_ok n (iota_subview (without_initializing junk (2 * n - 1)) n)"
    by (simp only: lab_def)
  have "comps n lab = {..<n}" by (auto simp: comps_def nth)
  then show "comps n (iota_subview (without_initializing junk (2 * n - 1)) n) = {..<n}"
    by (simp only: lab_def)
qed

lemma ctor_begin_spec_inv:
  fixes d :: "'p \<Rightarrow> 'p \<Rightarrow> 'w::{linorder,zero}"
    and space :: ExecutionSpace and Mode :: BoruvkaMode and k :: int
  assumes ax: "metric_axioms d infty" and ne: "ps \<noteq> []"
  defines "s0 \<equiv> ctor_begin (Details_spec d infty) space Mode ps k"
  shows "spec_inv d infty ps (ctor_metric (Details_spec d infty) ps k) s0"
    and "card (comps (length ps) (labels s0)) = length ps"
proof -
  let ?n = "length ps"
  let ?m = "ctor_metric (Details_spec d infty) ps k"
  have n: "0 < ?n" using ne by simp
  have good: "good_metric d infty ps ?m" using ax ne by (rule ctor_metric_good)
  have lab: "labels s0 = iota_subview (without_initializing (\<lambda>i. - 9) (2 * ?n - 1)) ?n"
    by (simp add: s0_def ctor_begin_def Boruvka_begin_def Details_spec_def
        MinimumSpanningTree.defs Boruvka.defs)
  have ok: "labels_ok ?n (labels s0)" and comps: "comps ?n (labels s0) = {..<?n}"
    unfolding lab using n by (rule comps_iota)+
  show card: "card (comps ?n (labels s0)) = ?n" by (simp add: comps)
  have lbs: "lower_bounds s0 = (if use_lower_bounds space then replicate ?n 0 else [])"
    by (simp add: s0_def ctor_begin_def Boruvka_begin_def Details_spec_def
        MinimumSpanningTree.defs Boruvka.defs deep_copy_replicate without_initializing_def)
  have valid: "valid_bounds d ps ?m (labels s0) (lower_bounds s0)"
    using good by (auto simp: lbs valid_bounds_def good_metric_def)
  have rest: "length (labels s0) = 2 * ?n - 1" "length (component_out_edges s0) = ?n"
    "length (weights s0) = ?n" "length (lower_bounds s0) \<le> ?n" "num_edges s0 = 0"
    "num_components s0 = int ?n" "edges_end s0 = 0" "length (edges s0) = ?n - 1"
    by (simp_all add: s0_def ctor_begin_def Boruvka_begin_def Details_spec_def
        MinimumSpanningTree.defs Boruvka.defs without_initializing_def iota_subview_def
        deep_copy_def initial_members_def)
  show "spec_inv d infty ps ?m s0"
    using n good ok valid rest by (simp add: spec_inv_def card)
qed

lemma ctor_loop_spec:
  "ctor_loop fuel (Details_spec d infty) space Mode ps k =
     Boruvka_loop fuel (Details_spec d infty) space Mode ps
       (ctor_metric (Details_spec d infty) ps k) (length ps)
       (findParents_spec ps (without_initializing (\<lambda>i. - 9) (2 * length ps - 1)))
       (ctor_begin (Details_spec d infty) space Mode ps k)"
  by (simp add: ctor_loop_def Let_def Details_spec_def)

text \<open>The loop of a constructor call, with enough fuel for the logarithm of the size.\<close>

lemma ctor_loop_spec_terminates:
  fixes d :: "'p \<Rightarrow> 'p \<Rightarrow> 'w::{linorder,zero}"
  assumes ax: "metric_axioms d infty" and two: "2 \<le> length ps"
    and fuel: "ceil_log2 (length ps) \<le> fuel"
  shows "\<exists>s. ctor_loop fuel (Details_spec d infty) space Mode ps k = Some s \<and>
           spec_inv d infty ps (ctor_metric (Details_spec d infty) ps k) s \<and>
           bookkeeping (ctor_prefix k @ [find_parents]) space Mode
             (ctor_metric (Details_spec d infty) ps k) s \<and>
           progress (length ps) (edge_offsets s) (nat (iterations s)) \<and>
           card (comps (length ps) (labels s)) = 1 \<and>
           1 \<le> iterations s \<and> nat (iterations s) \<le> ceil_log2 (length ps)"
proof -
  let ?D = "Details_spec d infty"
  let ?m = "ctor_metric ?D ps k"
  let ?s0 = "ctor_begin ?D space Mode ps k"
  let ?F = "ceil_log2 (length ps)"
  from two have ne: "ps \<noteq> []" by auto
  note b = ctor_begin_spec_inv [OF ax ne, where space = space and Mode = Mode and k = k]
  have book: "bookkeeping (ctor_prefix k @ [find_parents]) space Mode ?m ?s0"
    unfolding ctor_begin_def by (rule begin_bookkeeping)
  have i0: "iterations ?s0 = 0"
    by (simp add: ctor_begin_def Boruvka_begin_def MinimumSpanningTree.defs Boruvka.defs)
  have prog: "progress (length ps) (edge_offsets ?s0) (nat (iterations ?s0))"
    by (simp add: progress_def i0)
  have c2: "2 \<le> card (comps (length ps) (labels ?s0))" using two by (simp add: b(2))
  have cF: "card (comps (length ps) (labels ?s0)) \<le> 2 ^ ?F"
    by (simp add: b(2) ceil_log2_upper)
  from spec_loop_terminates [OF b(1) book prog c2 cF]
  obtain r where run: "Boruvka_loop ?F ?D space Mode ps ?m (length ps)
        (findParents_spec ps (without_initializing (\<lambda>i. - 9) (2 * length ps - 1))) ?s0 = Some r"
    and r: "spec_inv d infty ps ?m r" "bookkeeping (ctor_prefix k @ [find_parents]) space Mode ?m r"
      "progress (length ps) (edge_offsets r) (nat (iterations r))"
      "card (comps (length ps) (labels r)) = 1"
    by blast
  from loop_iterations_le [OF run] have "iterations r \<le> int ?F" by (simp add: i0)
  then have le: "nat (iterations r) \<le> ?F" by simp
  from loop_bookkeeping [OF run book] have pos: "1 \<le> iterations r" by (simp add: i0)
  from fuel obtain j where "fuel = ?F + j" by (metis le_iff_add)
  with loop_fuel_mono [OF run, of j]
  have "ctor_loop fuel ?D space Mode ps k = Some r" by (simp add: ctor_loop_spec)
  with r le pos show ?thesis by blast
qed

subsection \<open>The loop ends after at most the logarithm of the size\<close>

lemma ctor_returns:
  "primitives \<noteq> [] \<Longrightarrow> ctor_loop fuel D space Mode primitives k = Some s \<Longrightarrow>
     MinimumSpanningTree_ctor fuel D space Mode primitives k \<noteq> None"
  by (simp add: ctor_unfold)

lemma line_distance_axioms: "metric_axioms line_distance \<infinity>"
  by (simp add: metric_axioms_def line_distance_def abs_minus_commute)



subsection \<open>With and without the lower bounds\<close>

text \<open>A state of the loop without the radii, the lower bounds and the submitted work.\<close>

definition no_cache :: "'w Boruvka \<Rightarrow> 'w Boruvka" where
  "no_cache s = s\<lparr>radii := [], lower_bounds := [], submitted := []\<rparr>"

text \<open>One iteration on such a state, given the weights and the winners the search found.\<close>

definition iteration_no_cache ::
  "BoruvkaMode \<Rightarrow> 'p list \<Rightarrow> nat \<Rightarrow> int list \<Rightarrow> 'w list \<Rightarrow> 'w DirectedEdge list \<Rightarrow> 'w Boruvka
    \<Rightarrow> 'w Boruvka" where
  "iteration_no_cache Mode bvh n tp ws oes s =
    (let iterations1 = iterations s + 1;
         labels1 = reduceLabels_spec tp (labels s);
         f0 = \<lparr>f_labels = labels1, f_out_edges = oes, f_edges = edges s,
                f_edges_mapping = edges_mapping s, f_num_edges = num_edges s\<rparr>;
         f1 = UnidirectionalEdgesTag_spec Mode n f0;
         num_edges_host = f_num_edges f1;
         f2 = (if Mode = HDBSCAN then BidirectionalEdgesTag_spec Mode n f1 else f1);
         sided_parents1 =
           (if Mode = HDBSCAN \<and> iterations1 > 1
            then updateSidedParents_spec (f_labels f2) (f_edges f2) (f_edges_mapping f2)
                   (sided_parents s) (edges_start s) (edges_end s)
            else sided_parents s);
         dendrogram_parents1 =
           (if Mode = HDBSCAN \<and> \<not> iterations1 > 1
            then assignVertexParents_spec (f_labels f2) (f_out_edges f2) (f_edges_mapping f2) bvh
                   (dendrogram_parents s)
            else dendrogram_parents s);
         f3 = LabelsTag_spec Mode n f2
     in s\<lparr>edges := f_edges f3,
          dendrogram_parents := dendrogram_parents1,
          labels := f_labels f3,
          component_out_edges := f_out_edges f3,
          weights := ws,
          num_edges := f_num_edges f3,
          edges_mapping := f_edges_mapping f3,
          sided_parents := sided_parents1,
          iterations := iterations1,
          num_components := int n - num_edges_host,
          edges_start := edges_end s,
          edges_end := num_edges_host,
          edge_offsets := edge_offsets s @ [num_edges_host]\<rparr>)"

lemma no_cache_iteration:
  fixes d :: "'p \<Rightarrow> 'p \<Rightarrow> 'w::{linorder,zero}" and infty :: 'w
  shows "no_cache (Boruvka_iteration (Details_spec d infty) space Mode bvh m n tp s) =
         iteration_no_cache Mode bvh n tp (fst (found_spec d infty space bvh m tp s))
           (fst (snd (found_spec d infty space bvh m tp s))) (no_cache s)"
  by (simp add: Boruvka_iteration_def Details_spec_def Let_def found_spec_def no_cache_def
      iteration_no_cache_def)


text \<open>What the search finds does not depend on the lower bounds, as long as they are valid.\<close>

lemma found_spec_winners:
  fixes d :: "'p \<Rightarrow> 'p \<Rightarrow> 'w::{linorder,zero}" and infty :: 'w
  assumes inv: "spec_inv d infty bvh m s"
  shows "fst (found_spec d infty space bvh m tp s) =
           map (\<lambda>c. de_weight (winner d infty bvh m (reduceLabels_spec tp (labels s)) c))
             [0..<length bvh]"
    and "fst (snd (found_spec d infty space bvh m tp s)) =
           map (winner d infty bvh m (reduceLabels_spec tp (labels s))) [0..<length bvh]"
proof -
  let ?n = "length bvh"
  let ?lab = "labels s"
  let ?lab1 = "reduceLabels_spec tp ?lab"
  from inv have n: "0 < ?n"
    and len: "length ?lab = 2 * ?n - 1" and ok: "labels_ok ?n ?lab"
    and lens: "length (component_out_edges s) = ?n" "length (weights s) = ?n"
    and lbs_len: "length (lower_bounds s) \<le> ?n"
    and valid: "valid_bounds d bvh m ?lab (lower_bounds s)"
    by (simp_all add: spec_inv_def)
  note red = reduceLabels_spec_leaves [OF len n, where tp = tp]
  have ok1: "labels_ok ?n ?lab1" using ok red by (simp add: labels_ok_cong [of ?n ?lab1 ?lab])
  have valid1: "valid_bounds d bvh m ?lab1 (lower_bounds s)"
    using valid lbs_len by (rule valid_bounds_cong) (simp add: red(2))
  have oes0: "deep_copy (component_out_edges s)
                \<lparr>de_source = - 1, de_target = - 1, de_weight = infty\<rparr> =
              replicate ?n \<lparr>de_source = - 1, de_target = - 1, de_weight = infty\<rparr>"
    by (simp add: deep_copy_replicate lens)
  have ws0: "deep_copy (weights s) infty = replicate ?n infty"
    by (simp add: deep_copy_replicate lens)
  show "fst (found_spec d infty space bvh m tp s) =
           map (\<lambda>c. de_weight (winner d infty bvh m ?lab1 c)) [0..<?n]"
    using FindComponentNearestNeighbors_spec_weights [OF ok1 oes0 ws0 valid1,
      of "deep_copy (radii s) infty" "use_shared_radii space"]
    by (simp add: found_spec_def)
  show "fst (snd (found_spec d infty space bvh m tp s)) = map (winner d infty bvh m ?lab1) [0..<?n]"
    using FindComponentNearestNeighbors_spec_winner(1) [OF ok1 oes0 ws0 valid1,
      of "deep_copy (radii s) infty" "use_shared_radii space"]
    by (simp add: found_spec_def)
qed

lemma no_cache_fields [simp]:
  "labels (no_cache s) = labels s" "num_components (no_cache s) = num_components s"
  by (simp_all add: no_cache_def)

lemma loop_no_cache:
  fixes d :: "'p \<Rightarrow> 'p \<Rightarrow> 'w::{linorder,zero}" and infty :: 'w
  assumes "spec_inv d infty bvh m s1" "spec_inv d infty bvh m s2"
    and "no_cache s1 = no_cache s2"
    and "2 \<le> card (comps (length bvh) (labels s1))"
  shows "map_option no_cache
           (Boruvka_loop fuel (Details_spec d infty) space1 Mode bvh m (length bvh) tp s1) =
         map_option no_cache
           (Boruvka_loop fuel (Details_spec d infty) space2 Mode bvh m (length bvh) tp s2)"
  using assms
proof (induction fuel arbitrary: s1 s2)
  case 0
  then show ?case by simp
next
  case (Suc fuel)
  let ?D = "Details_spec d infty"
  let ?n = "length bvh"
  let ?t1 = "Boruvka_iteration ?D space1 Mode bvh m ?n tp s1"
  let ?t2 = "Boruvka_iteration ?D space2 Mode bvh m ?n tp s2"
  from Suc.prems(3) have lab: "labels s1 = labels s2"
    by (metis no_cache_fields(1))
  have found: "fst (found_spec d infty space1 bvh m tp s1) =
               fst (found_spec d infty space2 bvh m tp s2)"
    "fst (snd (found_spec d infty space1 bvh m tp s1)) =
     fst (snd (found_spec d infty space2 bvh m tp s2))"
    by (simp_all add: found_spec_winners [OF Suc.prems(1)] found_spec_winners [OF Suc.prems(2)] lab)
  have same: "no_cache ?t1 = no_cache ?t2"
    by (simp add: no_cache_iteration found Suc.prems(3))
  then have nc: "num_components ?t1 = num_components ?t2"
    by (metis no_cache_fields(2))
  from same have lab': "labels ?t1 = labels ?t2" by (metis no_cache_fields(1))
  have two2: "2 \<le> card (comps ?n (labels s2))" using Suc.prems(4) by (simp add: lab)
  note i1 = spec_iteration_inv [OF Suc.prems(1) Suc.prems(4), where space = space1 and Mode = Mode and tp = tp]
  note i2 = spec_iteration_inv [OF Suc.prems(2) two2, where space = space2 and Mode = Mode and tp = tp]
  show ?case
  proof (cases "num_components ?t1 > 1")
    case True
    then have "2 \<le> card (comps ?n (labels ?t1))"
      using i1(1) by (simp add: spec_inv_def)
    from Suc.IH [OF i1(1) i2(1) same this] True nc show ?thesis by (simp add: Let_def)
  next
    case False
    with nc same show ?thesis by (simp add: Let_def)
  qed
qed

text \<open>The constructed object is read off the state without the cache.\<close>

lemma end_no_cache:
  "MinimumSpanningTree.truncate
     ((Boruvka_end D Mode n s)\<lparr>edges := finalizeEdges D bvh (edges (Boruvka_end D Mode n s))\<rparr>) =
   MinimumSpanningTree.truncate
     ((Boruvka_end D Mode n (no_cache s))
        \<lparr>edges := finalizeEdges D bvh (edges (Boruvka_end D Mode n (no_cache s)))\<rparr>)"
  by (simp add: Boruvka_end_def finish_dendrogram_def assign_root_chain_def release_scratch_def
      no_cache_def Let_def MinimumSpanningTree.defs)

lemma ctor_object:
  "map_option fst (MinimumSpanningTree_ctor fuel D space Mode primitives k) =
     (if primitives = [] then None
      else map_option
             (\<lambda>s. MinimumSpanningTree.truncate
                ((Boruvka_end D Mode (bvh_size D (bvh_construct D primitives)) s)
                   \<lparr>edges := finalizeEdges D (bvh_construct D primitives)
                       (edges (Boruvka_end D Mode (bvh_size D (bvh_construct D primitives)) s))\<rparr>))
             (map_option no_cache (ctor_loop fuel D space Mode primitives k)))"
proof -
  have "map_option fst (MinimumSpanningTree_ctor fuel D space Mode primitives k) =
     (if primitives = [] then None
      else map_option
             (\<lambda>s. MinimumSpanningTree.truncate
                ((Boruvka_end D Mode (bvh_size D (bvh_construct D primitives)) s)
                   \<lparr>edges := finalizeEdges D (bvh_construct D primitives)
                       (edges (Boruvka_end D Mode (bvh_size D (bvh_construct D primitives)) s))\<rparr>))
             (ctor_loop fuel D space Mode primitives k))"
    by (simp add: ctor_unfold option.map_comp comp_def Let_def)
  also have "\<dots> = (if primitives = [] then None
      else map_option
             (\<lambda>s. MinimumSpanningTree.truncate
                ((Boruvka_end D Mode (bvh_size D (bvh_construct D primitives)) (no_cache s))
                   \<lparr>edges := finalizeEdges D (bvh_construct D primitives)
                       (edges (Boruvka_end D Mode (bvh_size D (bvh_construct D primitives))
                          (no_cache s)))\<rparr>))
             (ctor_loop fuel D space Mode primitives k))"
    by (simp add: end_no_cache [symmetric])
  finally show ?thesis by (simp add: option.map_comp comp_def)
qed

lemma rounds_lower_bounds_kernel:
  "update_lower_bounds \<in> set (concat (map (round_kernels space Mode metric offs) ts)) \<longleftrightarrow>
     use_lower_bounds space \<and> ts \<noteq> []"
  by (induction ts) (auto simp: round_kernels_def)

text \<open>
  C5. With the modelled callees, a distance that is symmetric, finite and not negative
  and at least two points: the constructor with the lower bounds (execution space
  \<open>Serial\<close>) and the constructor without them (any other space) return the same object,
  edges and dendrogram, or both do not return within the fuel. With fuel for
  \<open>ceil_log2 N\<close> iterations both return; the first has submitted the kernel that updates
  the lower bounds, the second has not.
\<close>

theorem lower_bounds_change_nothing:
  fixes d :: "'p \<Rightarrow> 'p \<Rightarrow> 'w::{linorder,zero}"
  assumes ax: "metric_axioms d infty" and two: "2 \<le> length primitives"
  shows "map_option fst (MinimumSpanningTree_ctor fuel (Details_spec d infty) Serial Mode primitives k) =
         map_option fst (MinimumSpanningTree_ctor fuel (Details_spec d infty) OtherSpace Mode primitives k) \<and>
         (ceil_log2 (length primitives) \<le> fuel \<longrightarrow>
            (\<exists>mst ks ks'.
               MinimumSpanningTree_ctor fuel (Details_spec d infty) Serial Mode primitives k =
                 Some (mst, ks) \<and>
               MinimumSpanningTree_ctor fuel (Details_spec d infty) OtherSpace Mode primitives k =
                 Some (mst, ks') \<and>
               update_lower_bounds \<in> set ks \<and> update_lower_bounds \<notin> set ks'))"
proof -
  let ?D = "Details_spec d infty"
  let ?m = "ctor_metric ?D primitives k"
  from two have ne: "primitives \<noteq> []" by auto
  note b1 = ctor_begin_spec_inv [OF ax ne, where space = Serial and Mode = Mode and k = k]
  note b2 = ctor_begin_spec_inv [OF ax ne, where space = OtherSpace and Mode = Mode and k = k]
  have same0: "no_cache (ctor_begin ?D Serial Mode primitives k) =
               no_cache (ctor_begin ?D OtherSpace Mode primitives k)"
    by (simp add: no_cache_def ctor_begin_def Boruvka_begin_def MinimumSpanningTree.defs
        Boruvka.defs)
  have c2: "2 \<le> card (comps (length primitives) (labels (ctor_begin ?D Serial Mode primitives k)))"
    using two by (simp add: b1(2))
  have loops: "map_option no_cache (ctor_loop fuel ?D Serial Mode primitives k) =
               map_option no_cache (ctor_loop fuel ?D OtherSpace Mode primitives k)"
    unfolding ctor_loop_spec using b1(1) b2(1) same0 c2 by (rule loop_no_cache)
  have eq: "map_option fst (MinimumSpanningTree_ctor fuel ?D Serial Mode primitives k) =
            map_option fst (MinimumSpanningTree_ctor fuel ?D OtherSpace Mode primitives k)"
    by (simp add: ctor_object loops)
  have both: "\<exists>mst ks ks'.
               MinimumSpanningTree_ctor fuel ?D Serial Mode primitives k = Some (mst, ks) \<and>
               MinimumSpanningTree_ctor fuel ?D OtherSpace Mode primitives k = Some (mst, ks') \<and>
               update_lower_bounds \<in> set ks \<and> update_lower_bounds \<notin> set ks'"
    if fuel: "ceil_log2 (length primitives) \<le> fuel"
  proof -
    from ctor_loop_spec_terminates [OF ax two fuel, of Serial Mode k]
    obtain s where "ctor_loop fuel ?D Serial Mode primitives k = Some s" by blast
    with ne have "MinimumSpanningTree_ctor fuel ?D Serial Mode primitives k \<noteq> None"
      by (rule ctor_returns)
    then obtain mst ks where r1: "MinimumSpanningTree_ctor fuel ?D Serial Mode primitives k =
        Some (mst, ks)" by auto
    with eq obtain ks' where r2: "MinimumSpanningTree_ctor fuel ?D OtherSpace Mode primitives k =
        Some (mst, ks')" by (cases "MinimumSpanningTree_ctor fuel ?D OtherSpace Mode primitives k") auto
    from r1 obtain offs T sp0 where T: "1 \<le> T"
      and ks: "ks = ctor_prefix k @ [find_parents] @
              concat (map (round_kernels Serial Mode ?m offs) [0..<T]) @
              (if Mode = HDBSCAN
               then [compute_parents_and_reorder_edges offs
                       (deep_copy_subview sp0 (offs ! (T - 1)) (offs ! T) (ROOT_CHAIN_VALUE ?D)),
                     assign_dendrogram_parent_heights]
               else []) @
              [finalize_edges]"
      by (rule ctor_submitted)
    from r2 obtain offs' T' sp0' where
      ks': "ks' = ctor_prefix k @ [find_parents] @
              concat (map (round_kernels OtherSpace Mode ?m offs') [0..<T']) @
              (if Mode = HDBSCAN
               then [compute_parents_and_reorder_edges offs'
                       (deep_copy_subview sp0' (offs' ! (T' - 1)) (offs' ! T') (ROOT_CHAIN_VALUE ?D)),
                     assign_dendrogram_parent_heights]
               else []) @
              [finalize_edges]"
      by (rule ctor_submitted)
    have "update_lower_bounds \<in> set (concat (map (round_kernels Serial Mode ?m offs) [0..<T]))"
      unfolding rounds_lower_bounds_kernel using T by (simp add: use_lower_bounds_def)
    then have "update_lower_bounds \<in> set ks"
      unfolding ks set_append by blast
    moreover have "update_lower_bounds \<notin>
        set (concat (map (round_kernels OtherSpace Mode ?m offs') [0..<T']))"
      unfolding rounds_lower_bounds_kernel by (simp add: use_lower_bounds_def)
    then have "update_lower_bounds \<notin> set ks'"
      unfolding ks' set_append by (simp add: ctor_prefix_def del: set_concat)
    ultimately show ?thesis using r1 r2 by blast
  qed
  from eq both show ?thesis by blast
qed


theorem lower_bounds_change_nothing_witness:
  "metric_axioms line_distance \<infinity> \<and> 2 \<le> length [0, 1, 10, 11 :: int] \<and>
   ceil_log2 (length [0, 1, 10, 11 :: int]) \<le> 2 \<and>
   map_option fst (MinimumSpanningTree_ctor 2 line_Details Serial HDBSCAN [0, 1, 10, 11] 2) =
   map_option fst (MinimumSpanningTree_ctor 2 line_Details OtherSpace HDBSCAN [0, 1, 10, 11] 2) \<and>
   (\<exists>mst ks ks'.
      MinimumSpanningTree_ctor 2 line_Details Serial HDBSCAN [0, 1, 10, 11] 2 = Some (mst, ks) \<and>
      MinimumSpanningTree_ctor 2 line_Details OtherSpace HDBSCAN [0, 1, 10, 11] 2 = Some (mst, ks') \<and>
      update_lower_bounds \<in> set ks \<and> update_lower_bounds \<notin> set ks')"
proof -
  have two: "2 \<le> length [0, 1, 10, 11 :: int]" by simp
  have fuel: "ceil_log2 (length [0, 1, 10, 11 :: int]) \<le> 2" by code_simp
  from lower_bounds_change_nothing [OF line_distance_axioms two, of 2 HDBSCAN 2]
  show ?thesis
    using line_distance_axioms two fuel unfolding line_Details_def by blast
qed

subsection \<open>Spanning trees\<close>

text \<open>
  The graph of an edge array: the vertices are the indices of the points, an edge links
  its two ends in both directions, and two vertices are linked when a walk along the
  edges leads from one to the other.
\<close>

definition links :: "'w WeightedEdge list \<Rightarrow> (int \<times> int) set" where
  "links es = (\<lambda>e. (source e, target e)) ` set es \<union> (\<lambda>e. (target e, source e)) ` set es"

definition linked :: "'w WeightedEdge list \<Rightarrow> int \<Rightarrow> int \<Rightarrow> bool" where
  "linked es u v = ((u, v) \<in> (links es)\<^sup>*)"

text \<open>
  A spanning tree of the points \<open>0, \<dots>, N - 1\<close>: \<open>N - 1\<close> edges between these points that
  link every two of them, and none of which closes a cycle: without the edge its two
  ends are not linked.
\<close>

definition spanning_tree :: "nat \<Rightarrow> 'w WeightedEdge list \<Rightarrow> bool" where
  "spanning_tree N es =
     (length es = N - 1 \<and>
      (\<forall>e\<in>set es. 0 \<le> source e \<and> source e < int N \<and> 0 \<le> target e \<and> target e < int N) \<and>
      (\<forall>u<N. \<forall>v<N. linked es (int u) (int v)) \<and>
      (\<forall>i<length es.
         \<not> linked (take i es @ drop (Suc i) es) (source (es ! i)) (target (es ! i))))"

lemma links_sym: "sym (links es)"
  by (auto simp: links_def sym_def)

lemma linked_refl [simp]: "linked es u u"
  by (simp add: linked_def)

lemma linked_sym: "linked es u v \<Longrightarrow> linked es v u"
  unfolding linked_def using sym_rtrancl [OF links_sym, of es] by (simp add: sym_def)

lemma linked_trans: "linked es u v \<Longrightarrow> linked es v w \<Longrightarrow> linked es u w"
  unfolding linked_def by (rule rtrancl_trans)

lemma linked_edge: "e \<in> set es \<Longrightarrow> linked es (source e) (target e)"
  unfolding linked_def by (rule r_into_rtrancl) (simp add: links_def)

lemma links_mono: "set es \<subseteq> set es' \<Longrightarrow> links es \<subseteq> links es'"
  by (auto simp: links_def)

lemma linked_mono: "set es \<subseteq> set es' \<Longrightarrow> linked es u v \<Longrightarrow> linked es' u v"
  unfolding linked_def using rtrancl_mono [OF links_mono, of es es'] by blast

text \<open>A labelling that is constant along the edges takes at least \<open>|V|\<close> minus the number
  of edges values on a set \<open>V\<close> of vertices.\<close>

lemma links_labelling:
  fixes es :: "'w WeightedEdge list" and V :: "int set"
  assumes "finite V"
  shows "\<exists>f :: int \<Rightarrow> int. (\<forall>u v. (u, v) \<in> links es \<longrightarrow> f u = f v) \<and>
           card V \<le> card (f ` V) + length es"
proof (induction es)
  case Nil
  have "(\<forall>u v. (u, v) \<in> links ([] :: 'w WeightedEdge list) \<longrightarrow> id u = id v) \<and>
        card V \<le> card (id ` V) + length ([] :: 'w WeightedEdge list)"
    by (simp add: links_def)
  then show ?case by blast
next
  case (Cons e es)
  then obtain f :: "int \<Rightarrow> int" where f: "\<And>u v. (u, v) \<in> links es \<Longrightarrow> f u = f v"
    and card: "card V \<le> card (f ` V) + length es" by blast
  define a where "a = source e"
  define b where "b = target e"
  define g where "g y = (if y = f b then f a else y)" for y
  define f' where "f' x = g (f x)" for x
  have along: "f' u = f' v" if "(u, v) \<in> links (e # es)" for u v
  proof -
    from that have "(u, v) \<in> links es \<or> (u = a \<and> v = b) \<or> (u = b \<and> v = a)"
      by (auto simp: links_def a_def b_def)
    then show ?thesis
      using f by (auto simp: f'_def g_def)
  qed
  have inj: "inj_on g (f ` V - {f b})"
    by (auto simp: inj_on_def g_def)
  have "card (f ` V) - 1 \<le> card (f ` V - {f b})"
    using assms by (simp add: card_Diff_singleton_if)
  also have "\<dots> = card (g ` (f ` V - {f b}))"
    using inj by (simp add: card_image)
  also have "\<dots> \<le> card (g ` f ` V)"
    using assms by (intro card_mono) auto
  finally have "card (f ` V) \<le> card (g ` f ` V) + 1" by simp
  moreover have "g ` f ` V = f' ` V" by (auto simp: f'_def)
  ultimately have "card V \<le> card (f' ` V) + length (e # es)"
    using card by simp
  with along show ?case by blast
qed

lemma linked_needs_edges:
  fixes es :: "'w WeightedEdge list"
  assumes "\<forall>u<N. \<forall>v<N. linked es (int u) (int v)"
  shows "N \<le> Suc (length es)"
proof -
  let ?V = "int ` {..<N}"
  have fin: "finite ?V" by simp
  from links_labelling [OF fin, of es]
  obtain f :: "int \<Rightarrow> int" where f: "\<And>u v. (u, v) \<in> links es \<Longrightarrow> f u = f v"
    and card: "card ?V \<le> card (f ` ?V) + length es" by blast
  have walk: "f u = f v" if "(u, v) \<in> (links es)\<^sup>*" for u v
    using that by (induction rule: rtrancl_induct) (auto dest: f)
  have "f ` ?V \<subseteq> {f 0}"
  proof
    fix y assume "y \<in> f ` ?V"
    then obtain u where u: "u < N" "y = f (int u)" by auto
    then have "0 < N" by simp
    with assms u(1) have "linked es (int u) (int 0)" by blast
    then show "y \<in> {f 0}" using walk [of "int u" 0] u(2) by (simp add: linked_def)
  qed
  then have "card (f ` ?V) \<le> card {f 0}" by (intro card_mono) simp_all
  moreover have "card ?V = N" by (simp add: card_image)
  ultimately show ?thesis using card by simp
qed

text \<open>An edge whose ends are linked without it can be left out.\<close>

lemma linked_without:
  assumes i: "i < length es"
    and by_pass: "linked (take i es @ drop (Suc i) es) (source (es ! i)) (target (es ! i))"
    and uv: "linked es u v"
  shows "linked (take i es @ drop (Suc i) es) u v"
proof -
  let ?es' = "take i es @ drop (Suc i) es"
  have es: "es = take i es @ es ! i # drop (Suc i) es"
    using i by (rule id_take_nth_drop)
  have "set es = insert (es ! i) (set ?es')"
    by (subst es) simp
  then have step: "(x, y) \<in> (links ?es')\<^sup>*" if "(x, y) \<in> links es" for x y
  proof -
    from that \<open>set es = insert (es ! i) (set ?es')\<close>
    have "(x, y) \<in> links ?es' \<or> (x = source (es ! i) \<and> y = target (es ! i)) \<or>
          (x = target (es ! i) \<and> y = source (es ! i))"
      by (auto simp: links_def)
    then show ?thesis
      using by_pass linked_sym [OF by_pass] by (auto simp: linked_def)
  qed
  from uv have "(u, v) \<in> (links es)\<^sup>*" by (simp add: linked_def)
  then have "(u, v) \<in> (links ?es')\<^sup>*"
    by (induction rule: rtrancl_induct) (auto dest: step intro: rtrancl_trans)
  then show ?thesis by (simp add: linked_def)
qed

text \<open>\<open>N - 1\<close> edges that link \<open>N\<close> points are a tree.\<close>

lemma linked_tree:
  fixes es :: "'w WeightedEdge list"
  assumes len: "length es = N - 1" and N: "0 < N"
    and all: "\<forall>u<N. \<forall>v<N. linked es (int u) (int v)"
    and i: "i < length es"
  shows "\<not> linked (take i es @ drop (Suc i) es) (source (es ! i)) (target (es ! i))"
proof
  let ?es' = "take i es @ drop (Suc i) es"
  assume "linked ?es' (source (es ! i)) (target (es ! i))"
  with i have "\<forall>u<N. \<forall>v<N. linked ?es' (int u) (int v)"
    using all by (blast intro: linked_without)
  then have "N \<le> Suc (length ?es')" by (rule linked_needs_edges)
  moreover have "length ?es' = length es - 1" using i by simp
  ultimately show False using len i by simp
qed

subsection \<open>The emitted edges link every component\<close>

text \<open>One union step: the points of a new component are linked by the edges so far
  together with the edges the components emit.\<close>

lemma union_step_linked:
  fixes oes :: "'w::linorder DirectedEdge list" and es es' :: "'w WeightedEdge list"
  assumes ok: "labels_ok n lab" "picks n lab oes"
    and old: "\<And>i j. i < n \<Longrightarrow> j < n \<Longrightarrow> lab ! i = lab ! j \<Longrightarrow> linked es (int i) (int j)"
    and sub: "set es \<subseteq> set es'"
    and new: "\<And>c. c < n \<Longrightarrow> emits lab oes c \<Longrightarrow> as_weighted (oes ! c) \<in> set es'"
    and i: "i < n" and j: "j < n"
    and same: "new_labels n lab oes ! i = new_labels n lab oes ! j"
  shows "linked es' (int i) (int j)"
proof -
  let ?next = "next_component lab oes"
  let ?p = "parent_component lab oes"
  have old': "linked es' (int a) (int b)" if "a < n" "b < n" "lab ! a = lab ! b" for a b
    using sub old [OF that] by (rule linked_mono)
  have self: "c < n \<and> lab ! c = int c" if "c \<in> comps n lab" for c
    using that by (simp add: comps_def)
  have emitted: "linked es' (int c) (int (?next c))"
    if c: "c \<in> comps n lab" and e: "emits lab oes c" for c
  proof -
    from ok(2) c have p: "0 \<le> de_source (oes ! c)" "0 \<le> de_target (oes ! c)"
      "src oes c < n" "tgt oes c < n" "lab ! src oes c = int c"
      by (simp_all add: picks_def)
    have nx: "?next c \<in> comps n lab" using ok c by (rule picks_next)
    have lt: "0 \<le> lab ! tgt oes c" using ok(1) p(4) by (simp add: labels_ok_def)
    have nx_lab: "lab ! tgt oes c = int (?next c)"
      using lt by (simp add: next_component_def tgt_def)
    have "as_weighted (oes ! c) \<in> set es'" using self [OF c] e by (simp add: new)
    then have "linked es' (source (as_weighted (oes ! c))) (target (as_weighted (oes ! c)))"
      by (rule linked_edge)
    then have edge: "linked es' (int (src oes c)) (int (tgt oes c))"
      using p(1,2) by (simp add: as_weighted_def src_def tgt_def)
    have "linked es' (int c) (int (src oes c))"
      using self [OF c] p(3,5) by (intro old') simp_all
    moreover have "linked es' (int (tgt oes c)) (int (?next c))"
      using self [OF nx] p(4) nx_lab by (intro old') simp_all
    ultimately show ?thesis using edge by (blast intro: linked_trans)
  qed
  have nxt: "linked es' (int c) (int (?next c))" if c: "c \<in> comps n lab" for c
  proof (cases "emits lab oes c")
    case True
    with c show ?thesis by (rule emitted)
  next
    case False
    have nx: "?next c \<in> comps n lab" "?next c \<noteq> c" using picks_next [OF ok c] by simp_all
    have real: "real_winner (oes ! c)" using ok c by (rule picks_next)
    from False self [OF c] real
    have mp: "mutual_pair oes c (?next c)" and ge: "\<not> c < ?next c"
      by (auto simp: emits_def)
    have bk: "?next (?next c) = c" using ok c mp by (rule mutual_next)
    have "real_winner (oes ! ?next c)" using ok nx(1) by (rule picks_next)
    then have "emits lab oes (?next c)"
      using self [OF nx(1)] nx(2) ge by (simp add: emits_def bk)
    with nx(1) have "linked es' (int (?next c)) (int (?next (?next c)))" by (rule emitted)
    then show ?thesis unfolding bk by (rule linked_sym)
  qed
  have par: "linked es' (int c) (int (?p c))" if c: "c \<in> comps n lab" for c
  proof -
    have "?p c = c \<or> ?p c = ?next c"
      by (simp add: parent_cases [OF ok c] min_def)
    then show ?thesis using nxt [OF c] by auto
  qed
  have pow: "linked es' (int c) (int ((?p ^^ k) c))" if c: "c \<in> comps n lab" for c k
  proof (induction k)
    case 0
    show ?case by simp
  next
    case (Suc k)
    have "(?p ^^ k) c \<in> comps n lab" using ok c by (rule parent_funpow_in)
    from par [OF this] have "linked es' (int ((?p ^^ k) c)) (int ((?p ^^ Suc k) c))" by simp
    with Suc show ?case by (rule linked_trans)
  qed
  have fin: "linked es' (int a) (int (final_component lab oes n (nat (lab ! a))))"
    if a: "a < n" for a
  proof -
    let ?c = "nat (lab ! a)"
    have c: "?c \<in> comps n lab" using ok(1) a by (rule comps_label)
    have "0 \<le> lab ! a" using ok(1) a by (simp add: labels_ok_def)
    then have "lab ! a = lab ! ?c" using self [OF c] by simp
    then have "linked es' (int a) (int ?c)" using a self [OF c] by (intro old') simp_all
    moreover have "linked es' (int ?c) (int (final_component lab oes n ?c))"
      unfolding final_component_def using c by (rule pow)
    ultimately show ?thesis by (rule linked_trans)
  qed
  from same have "final_component lab oes n (nat (lab ! i)) =
                  final_component lab oes n (nat (lab ! j))"
    using i j by (simp add: new_labels_nth [OF ok(1)])
  with fin [OF i] fin [OF j] show ?thesis
    by (metis linked_sym linked_trans)
qed

text \<open>The edges in the slots filled so far link the points of every component, and
  their ends are points.\<close>

definition links_inv :: "nat \<Rightarrow> 'w Boruvka \<Rightarrow> bool" where
  "links_inv n s =
     ((\<forall>i<n. \<forall>j<n. labels s ! i = labels s ! j \<longrightarrow>
         linked (take (nat (num_edges s)) (edges s)) (int i) (int j)) \<and>
      (\<forall>e\<in>set (take (nat (num_edges s)) (edges s)).
         0 \<le> source e \<and> source e < int n \<and> 0 \<le> target e \<and> target e < int n))"

lemma spec_iteration_links:
  fixes d :: "'p \<Rightarrow> 'p \<Rightarrow> 'w::{linorder,zero}" and infty :: 'w
    and space :: ExecutionSpace and Mode :: BoruvkaMode and tp :: "int list"
  assumes inv: "spec_inv d infty bvh m s"
    and two: "2 \<le> card (comps (length bvh) (labels s))"
    and li: "links_inv (length bvh) s"
  defines "s' \<equiv> Boruvka_iteration (Details_spec d infty) space Mode bvh m (length bvh) tp s"
  shows "links_inv (length bvh) s'"
proof -
  let ?n = "length bvh"
  let ?lab = "labels s"
  let ?lab1 = "reduceLabels_spec tp ?lab"
  let ?oes = "fst (snd (found_spec d infty space bvh m tp s))"
  let ?es = "take (nat (num_edges s)) (edges s)"
  let ?new = "map (\<lambda>c. as_weighted (?oes ! c)) (filter (emits ?lab1 ?oes) [0..<?n])"
  from inv have n: "0 < ?n" and good: "good_metric d infty bvh m"
    and len: "length ?lab = 2 * ?n - 1" and ok: "labels_ok ?n ?lab"
    and ne: "num_edges s = int ?n - int (card (comps ?n ?lab))"
    and elen: "length (edges s) = ?n - 1"
    by (simp_all add: spec_inv_def)
  note red = reduceLabels_spec_leaves [OF len n, where tp = tp]
  have ok1: "labels_ok ?n ?lab1" using ok red by (simp add: labels_ok_cong [of ?n ?lab1 ?lab])
  have comps1: "comps ?n ?lab1 = comps ?n ?lab" using red(2) by (rule comps_cong)
  have oes: "?oes = map (winner d infty bvh m ?lab1) [0..<?n]"
    using inv by (rule found_spec_winners)
  have several: "\<exists>i<?n. \<exists>j<?n. ?lab1 ! i \<noteq> ?lab1 ! j"
    using two unfolding comps1 [symmetric] by (rule several_comps)
  have picks: "picks ?n ?lab1 ?oes"
    unfolding oes using good ok1 several by (rule winners_pick)
  note fields = spec_iteration_fields [of d infty space Mode bvh m ?n tp s, folded s'_def]
  from two obtain c where c: "c \<in> comps ?n ?lab1"
    unfolding comps1 by (cases "comps ?n ?lab = {}") auto
  have "final_component ?lab1 ?oes ?n c \<in> roots ?n ?lab1 ?oes"
    using ok1 picks c by (rule roots_nonempty)
  then have "roots ?n ?lab1 ?oes \<noteq> {}" by auto
  then have one: "1 \<le> card (roots ?n ?lab1 ?oes)"
    by (simp add: Suc_le_eq card_gt_0_iff)
  have emitted: "length (filter (emits ?lab1 ?oes) [0..<?n]) + card (roots ?n ?lab1 ?oes) =
                 card (comps ?n ?lab)"
    using emitting_card [OF ok1 picks] by (simp add: length_filter_upt comps1)
  have le_n: "card (comps ?n ?lab) \<le> ?n" by (rule comps_card_le)
  have k0: "0 \<le> num_edges s" using ne le_n by simp
  have k: "nat (num_edges s) = ?n - card (comps ?n ?lab)" using ne le_n by simp
  have room: "nat (num_edges s) + length (filter (emits ?lab1 ?oes) [0..<?n]) \<le> ?n - 1"
    using k emitted one le_n by simp
  have k': "nat (num_edges s') = nat (num_edges s) + length (filter (emits ?lab1 ?oes) [0..<?n])"
    using k0 by (simp add: fields(2) nat_add_distrib)
  let ?f = "\<lparr>f_labels = ?lab1, f_out_edges = ?oes, f_edges = edges s,
             f_edges_mapping = edges_mapping s, f_num_edges = num_edges s\<rparr>"
  have "take (nat (f_num_edges ?f) + length (filter (emits (f_labels ?f) (f_out_edges ?f)) [0..<?n]))
          (f_edges (fold (emit Mode) [0..<?n] ?f)) =
        take (nat (f_num_edges ?f)) (f_edges ?f) @
        map (\<lambda>c. as_weighted (f_out_edges ?f ! c))
          (filter (emits (f_labels ?f) (f_out_edges ?f)) [0..<?n])"
    by (rule fold_emit_edges) (use k0 room elen in simp_all)
  then have es': "take (nat (num_edges s')) (edges s') = ?es @ ?new"
    by (simp add: k' fields(7))
  have old: "linked ?es (int i) (int j)" if "i < ?n" "j < ?n" "?lab1 ! i = ?lab1 ! j" for i j
    using li that by (simp add: links_inv_def red(2))
  have new: "as_weighted (?oes ! c) \<in> set (?es @ ?new)" if "c < ?n" "emits ?lab1 ?oes c" for c
    using that by simp
  have lab': "labels s' = new_labels ?n ?lab1 ?oes" by (rule fields(1))
  have a: "linked (take (nat (num_edges s')) (edges s')) (int i) (int j)"
    if "i < ?n" "j < ?n" "labels s' ! i = labels s' ! j" for i j
    unfolding es'
    by (rule union_step_linked [OF ok1 picks old _ new that(1,2)])
      (use that(3) in \<open>simp_all add: lab'\<close>)
  have ends: "0 \<le> source e \<and> source e < int ?n \<and> 0 \<le> target e \<and> target e < int ?n"
    if "e \<in> set ?new" for e
  proof -
    from that obtain c where c: "c < ?n" "emits ?lab1 ?oes c" and e: "e = as_weighted (?oes ! c)"
      by auto
    from c have "c \<in> comps ?n ?lab1" by (simp add: comps_def emits_def)
    with picks have "0 \<le> de_source (?oes ! c)" "0 \<le> de_target (?oes ! c)"
      "src ?oes c < ?n" "tgt ?oes c < ?n"
      by (simp_all add: picks_def)
    then show ?thesis unfolding e as_weighted_def src_def tgt_def by auto
  qed
  have b: "0 \<le> source e \<and> source e < int ?n \<and> 0 \<le> target e \<and> target e < int ?n"
    if "e \<in> set (take (nat (num_edges s')) (edges s'))" for e
    using that li ends unfolding es' by (auto simp: links_inv_def)
  from a b show ?thesis unfolding links_inv_def by blast
qed

lemma spec_loop_links:
  fixes d :: "'p \<Rightarrow> 'p \<Rightarrow> 'w::{linorder,zero}" and infty :: 'w
  assumes "Boruvka_loop fuel (Details_spec d infty) space Mode bvh m (length bvh) tp s = Some r"
    and "spec_inv d infty bvh m s"
    and "2 \<le> card (comps (length bvh) (labels s))"
    and "links_inv (length bvh) s"
  shows "links_inv (length bvh) r"
  using assms
proof (induction fuel arbitrary: s)
  case 0
  then show ?case by simp
next
  case (Suc fuel)
  let ?n = "length bvh"
  let ?s1 = "Boruvka_iteration (Details_spec d infty) space Mode bvh m ?n tp s"
  have inv1: "spec_inv d infty bvh m ?s1"
    using Suc.prems(2,3) by (rule spec_iteration_inv)
  have li1: "links_inv ?n ?s1"
    using Suc.prems(2,3,4) by (rule spec_iteration_links)
  show ?case
  proof (cases "num_components ?s1 > 1")
    case True
    then have two1: "2 \<le> card (comps ?n (labels ?s1))"
      using inv1 by (simp add: spec_inv_def)
    from Suc.prems(1) True
    have "Boruvka_loop fuel (Details_spec d infty) space Mode bvh m ?n tp ?s1 = Some r"
      by (simp add: Let_def)
    from Suc.IH [OF this inv1 two1 li1] show ?thesis .
  next
    case False
    with Suc.prems(1) have "r = ?s1" by (simp add: Let_def)
    with li1 show ?thesis by simp
  qed
qed

lemma ctor_begin_links:
  "links_inv (length ps) (ctor_begin (Details_spec d infty) space Mode ps k)"
proof -
  let ?s0 = "ctor_begin (Details_spec d infty) space Mode ps k"
  have ne: "num_edges ?s0 = 0"
    by (simp add: ctor_begin_def Boruvka_begin_def MinimumSpanningTree.defs Boruvka.defs)
  have "labels ?s0 ! i = int i" if "i < length ps" for i
  proof -
    have "i < 2 * length ps - 1" using that by simp
    then show ?thesis
      using that
      by (simp add: ctor_begin_def Boruvka_begin_def Details_spec_def
          MinimumSpanningTree.defs Boruvka.defs iota_subview_def without_initializing_def)
  qed
  then show ?thesis by (simp add: links_inv_def ne)
qed

text \<open>The edges of the constructed object are the edges the loop leaves.\<close>

lemma ctor_spec_edges:
  assumes "MinimumSpanningTree_ctor fuel (Details_spec d infty) space Mode ps k = Some (mst, ks)"
  shows "\<exists>s. ctor_loop fuel (Details_spec d infty) space Mode ps k = Some s \<and>
           edges mst = take (length ps - 1) (edges s)"
proof -
  from assms obtain s where run: "ctor_loop fuel (Details_spec d infty) space Mode ps k = Some s"
    and mst: "mst = MinimumSpanningTree.truncate
           ((Boruvka_end (Details_spec d infty) Mode
               (bvh_size (Details_spec d infty) (bvh_construct (Details_spec d infty) ps)) s)
             \<lparr>edges := finalizeEdges (Details_spec d infty) (bvh_construct (Details_spec d infty) ps)
                 (edges (Boruvka_end (Details_spec d infty) Mode
                    (bvh_size (Details_spec d infty) (bvh_construct (Details_spec d infty) ps)) s))\<rparr>)"
    by (rule ctor_SomeD)
  have "edges mst = take (length ps - 1) (edges s)"
    unfolding mst
    by (simp add: Boruvka_end_def finish_dendrogram_def assign_root_chain_def release_scratch_def
        Details_spec_def finalizeEdges_spec_def computeParentsAndReorderEdges_spec_def Let_def
        MinimumSpanningTree.defs split: prod.splits)
  with run show ?thesis by blast
qed

text \<open>
  C1. With the modelled callees, a distance that is symmetric, finite and not negative,
  at least two points and fuel for \<open>ceil_log2 N\<close> iterations, the constructor returns, and
  the edges of the object are a spanning tree of the points: \<open>N - 1\<close> edges whose ends
  are points, that link every two points, and none of which closes a cycle.
\<close>

theorem edges_are_spanning_tree:
  fixes d :: "'p \<Rightarrow> 'p \<Rightarrow> 'w::{linorder,zero}"
  assumes ax: "metric_axioms d infty" and two: "2 \<le> length primitives"
    and fuel: "ceil_log2 (length primitives) \<le> fuel"
  shows "\<exists>mst ks.
           MinimumSpanningTree_ctor fuel (Details_spec d infty) space Mode primitives k =
             Some (mst, ks) \<and>
           spanning_tree (length primitives) (edges mst)"
proof -
  let ?D = "Details_spec d infty"
  let ?m = "ctor_metric ?D primitives k"
  let ?N = "length primitives"
  let ?s0 = "ctor_begin ?D space Mode primitives k"
  from two have ne: "primitives \<noteq> []" and N: "0 < ?N" by auto
  from ctor_loop_spec_terminates [OF ax two fuel, of space Mode k]
  obtain s where run: "ctor_loop fuel ?D space Mode primitives k = Some s"
    and inv: "spec_inv d infty primitives ?m s"
    and one: "card (comps ?N (labels s)) = 1"
    by blast
  from ne run have "MinimumSpanningTree_ctor fuel ?D space Mode primitives k \<noteq> None"
    by (rule ctor_returns)
  then obtain mst ks where
    ret: "MinimumSpanningTree_ctor fuel ?D space Mode primitives k = Some (mst, ks)" by auto
  from ctor_spec_edges [OF ret] run have mst: "edges mst = take (?N - 1) (edges s)" by simp
  note b = ctor_begin_spec_inv [OF ax ne, where space = space and Mode = Mode and k = k]
  have c2: "2 \<le> card (comps ?N (labels ?s0))" using two by (simp add: b(2))
  have li: "links_inv ?N s"
    using run [unfolded ctor_loop_spec] b(1) c2 ctor_begin_links by (rule spec_loop_links)
  from inv one have ok: "labels_ok ?N (labels s)" and ne_s: "num_edges s = int ?N - 1"
    and len: "length (edges s) = ?N - 1"
    by (simp_all add: spec_inv_def)
  have all: "take (nat (num_edges s)) (edges s) = edges mst"
    using N by (simp add: ne_s len mst nat_diff_distrib)
  from one obtain r where r: "comps ?N (labels s) = {r}" by (auto simp: card_1_singleton_iff)
  have lab: "labels s ! i = int r" if "i < ?N" for i
  proof -
    from comps_label [OF ok that] r have "nat (labels s ! i) = r" by simp
    moreover have "0 \<le> labels s ! i" using ok that by (simp add: labels_ok_def)
    ultimately show ?thesis by simp
  qed
  from li have li1: "\<forall>i<?N. \<forall>j<?N. labels s ! i = labels s ! j \<longrightarrow>
      linked (edges mst) (int i) (int j)"
    and ends: "\<forall>e\<in>set (edges mst).
      0 \<le> source e \<and> source e < int ?N \<and> 0 \<le> target e \<and> target e < int ?N"
    unfolding links_inv_def all by blast+
  have linked: "\<forall>u<?N. \<forall>v<?N. linked (edges mst) (int u) (int v)"
  proof (intro allI impI)
    fix u v assume "u < ?N" "v < ?N"
    with li1 lab [of u] lab [of v] show "linked (edges mst) (int u) (int v)" by simp
  qed
  have length: "length (edges mst) = ?N - 1" by (simp add: mst len)
  have tree: "\<forall>i<length (edges mst).
      \<not> linked (take i (edges mst) @ drop (Suc i) (edges mst))
          (source (edges mst ! i)) (target (edges mst ! i))"
  proof (intro allI impI)
    fix i assume "i < length (edges mst)"
    with length N linked
    show "\<not> linked (take i (edges mst) @ drop (Suc i) (edges mst))
          (source (edges mst ! i)) (target (edges mst ! i))"
      by (rule linked_tree)
  qed
  have "spanning_tree ?N (edges mst)"
    unfolding spanning_tree_def using length ends linked tree by (intro conjI)
  with ret show ?thesis by (intro exI conjI)
qed

theorem edges_are_spanning_tree_witness:
  "metric_axioms line_distance \<infinity> \<and> 2 \<le> length [0, 1, 10, 11 :: int] \<and>
   ceil_log2 (length [0, 1, 10, 11 :: int]) \<le> 2 \<and>
   (\<exists>mst ks.
      MinimumSpanningTree_ctor 2 line_Details OtherSpace HDBSCAN [0, 1, 10, 11] 2 =
        Some (mst, ks) \<and>
      spanning_tree (length [0, 1, 10, 11 :: int]) (edges mst))"
proof -
  have two: "2 \<le> length [0, 1, 10, 11 :: int]" by simp
  have fuel: "ceil_log2 (length [0, 1, 10, 11 :: int]) \<le> 2" by code_simp
  from edges_are_spanning_tree [OF line_distance_axioms two fuel, of OtherSpace HDBSCAN 2]
  show ?thesis
    using line_distance_axioms two fuel unfolding line_Details_def by blast
qed

subsection \<open>The order of the emission\<close>

text \<open>
  Modelled from the spec: the slot of an emitted edge comes from an atomic counter, so
  within one iteration the components emit in an order that a run does not determine.
  A schedule picks the order, from the size and the state of the kernel; it visits
  every component id once.
\<close>

definition UnidirectionalEdgesTag_in_order ::
  "(nat \<Rightarrow> 'w UpdateComponentsAndEdges \<Rightarrow> nat list) \<Rightarrow> BoruvkaMode \<Rightarrow> nat
    \<Rightarrow> 'w UpdateComponentsAndEdges \<Rightarrow> 'w UpdateComponentsAndEdges" where
  "UnidirectionalEdgesTag_in_order schedule Mode n f = fold (emit Mode) (schedule n f) f"


definition Details_scheduled ::
  "('p \<Rightarrow> 'p \<Rightarrow> 'w) \<Rightarrow> 'w \<Rightarrow> (nat \<Rightarrow> 'w UpdateComponentsAndEdges \<Rightarrow> nat list)
    \<Rightarrow> ('p, 'p list, 'w::{linorder,zero}) Details" where
  "Details_scheduled d infty schedule =
     (Details_spec d infty)\<lparr>UnidirectionalEdgesTag := UnidirectionalEdgesTag_in_order schedule\<rparr>"


lemma Details_spec_scheduled:
  "Details_spec d infty = Details_scheduled d infty (\<lambda>n f. [0..<n])"
proof -
  have "UnidirectionalEdgesTag_spec = UnidirectionalEdgesTag_in_order (\<lambda>n f. [0..<n])"
    by (intro ext) (simp add: UnidirectionalEdgesTag_spec_def UnidirectionalEdgesTag_in_order_def)
  then show ?thesis by (simp add: Details_scheduled_def Details_spec_def)
qed













text \<open>The two runs of the witness leave the edges in different slots.\<close>

lemma schedules_differ:
  "map_option (\<lambda>r. edges (fst r))
     (MinimumSpanningTree_ctor 2 (Details_scheduled line_distance \<infinity> (\<lambda>n f. [0..<n]))
        Serial MST [0, 1, 10, 11] 1) \<noteq>
   map_option (\<lambda>r. edges (fst r))
     (MinimumSpanningTree_ctor 2 (Details_scheduled line_distance \<infinity> (\<lambda>n f. rev [0..<n]))
        Serial MST [0, 1, 10, 11] 1)"
  by code_simp

end
